theory Spec2Isabelle
  imports Main "HOL-Library.Word"
begin

section \<open>Buffers, strings and exceptions\<close>

text \<open>
  The archive is read into a Node \<^verbatim>\<open>Buffer\<close>: a sequence of bytes addressed from 0.
  JavaScript strings are sequences of UTF-16 code units.  All offsets computed by
  \<^verbatim>\<open>src/utils/unzipper.ts\<close> are sums of unsigned reads and non-negative constants, far
  below \<open>2^53\<close>, so they are exact natural numbers; only the backward loop variable of the
  End-Of-Central-Directory search can go below zero and is an \<open>int\<close>.
\<close>

type_synonym byte = "8 word"
type_synonym buffer = "byte list"
type_synonym jsstring = "16 word list"

text \<open>
  An exception is the class it was constructed with and, for the generic class, its
  message.  The code can throw the \<^verbatim>\<open>RangeError\<close> of an out-of-range \<^verbatim>\<open>readUInt16LE\<close> or
  \<^verbatim>\<open>readUInt32LE\<close>, and the \<^verbatim>\<open>new Error(message)\<close> of \<^verbatim>\<open>getData\<close>; the source declares no
  exception class of its own.  \<open>error_name\<close> is the \<^verbatim>\<open>name\<close> property of the exception.
\<close>

datatype error = RangeError | Error jsstring

fun error_name :: "error \<Rightarrow> string" where
  "error_name RangeError = ''RangeError''"
| "error_name (Error message) = ''Error''"

definition bindE :: "error + 'a \<Rightarrow> ('a \<Rightarrow> error + 'b) \<Rightarrow> error + 'b" where
  "bindE m f = (case m of Inl e \<Rightarrow> Inl e | Inr v \<Rightarrow> f v)"

text \<open>\<^verbatim>\<open>buf[i]\<close>: \<^verbatim>\<open>undefined\<close> (here \<open>None\<close>) outside the buffer, never an exception.\<close>

definition byteAt :: "buffer \<Rightarrow> int \<Rightarrow> byte option" where
  "byteAt buf i = (if 0 \<le> i \<and> i < int (length buf) then Some (buf ! nat i) else None)"

text \<open>
  \<^verbatim>\<open>buf.readUInt16LE(offset)\<close> and \<^verbatim>\<open>buf.readUInt32LE(offset)\<close>: little-endian unsigned
  reads that throw a \<^verbatim>\<open>RangeError\<close> unless the whole field lies inside the buffer.
\<close>

definition readUInt16LE :: "buffer \<Rightarrow> nat \<Rightarrow> error + nat" where
  "readUInt16LE buf offset =
     (if offset + 2 \<le> length buf
      then Inr (unat (buf ! offset) + unat (buf ! (offset + 1)) * 2 ^ 8)
      else Inl RangeError)"

definition readUInt32LE :: "buffer \<Rightarrow> nat \<Rightarrow> error + nat" where
  "readUInt32LE buf offset =
     (if offset + 4 \<le> length buf
      then Inr (unat (buf ! offset) + unat (buf ! (offset + 1)) * 2 ^ 8
                + unat (buf ! (offset + 2)) * 2 ^ 16 + unat (buf ! (offset + 3)) * 2 ^ 24)
      else Inl RangeError)"

text \<open>
  \<^verbatim>\<open>buf.slice(start, end)\<close> returns a view on the same memory, never a copy: both ends are
  clamped to the buffer's length and an inverted range is empty.  A view is its offset in
  the archive buffer and its length.
\<close>

record view =
  byteOffset :: nat
  byteLength :: nat

definition slice :: "buffer \<Rightarrow> nat \<Rightarrow> nat \<Rightarrow> view" where
  "slice buf start endpos =
     (let s = min start (length buf); e = min endpos (length buf)
      in \<lparr>byteOffset = s, byteLength = (if e > s then e - s else 0)\<rparr>)"

definition bytes :: "buffer \<Rightarrow> view \<Rightarrow> buffer" where
  "bytes buf v = take (byteLength v) (drop (byteOffset v) buf)"

text \<open>
  \<^verbatim>\<open>buf.toString('utf-8', start, end)\<close>: the empty string when the clamped range is empty,
  else the UTF-8 decoding of the bytes in it.  The decoder itself belongs to the runtime
  and is the parameter \<open>utf8\<close>.
\<close>

definition toString :: "(buffer \<Rightarrow> jsstring) \<Rightarrow> buffer \<Rightarrow> nat \<Rightarrow> nat \<Rightarrow> jsstring" where
  "toString utf8 buf start endpos =
     (if length buf \<le> start then []
      else let e = min endpos (length buf)
           in if e \<le> start then [] else utf8 (take (e - start) (drop start buf)))"

text \<open>\<^verbatim>\<open>s.endsWith(suffix)\<close>.\<close>

definition endsWith :: "jsstring \<Rightarrow> jsstring \<Rightarrow> bool" where
  "endsWith s suffix =
     (length suffix \<le> length s \<and> drop (length s - length suffix) s = suffix)"

text \<open>
  \<^verbatim>\<open>buf.indexOf(value, byteOffset)\<close> for a buffer \<open>val\<close>: the first position at or after
  \<open>fromIndex\<close> (the \<^verbatim>\<open>byteOffset\<close> argument) where \<open>val\<close> occurs inside the buffer; \<open>None\<close> stands
  for the result \<open>-1\<close>.  (Node caps \<^verbatim>\<open>byteOffset\<close> at \<open>2^31 - 1\<close>; a buffer returned by
  \<^verbatim>\<open>fs.readFileSync\<close> is shorter than that.)
\<close>

function indexOf :: "buffer \<Rightarrow> buffer \<Rightarrow> nat \<Rightarrow> nat option" where
  "indexOf buf val fromIndex =
     (if length buf < fromIndex + length val then None
      else if take (length val) (drop fromIndex buf) = val then Some fromIndex
      else indexOf buf val (fromIndex + 1))"
  by pat_completeness auto
termination
  by (relation "measure (\<lambda>(buf, val, fromIndex). length buf + 1 - fromIndex)") auto

declare indexOf.simps [simp del]

text \<open>A string literal as code units, and the decimal rendering of a number in a template.\<close>

definition lit :: "string \<Rightarrow> jsstring" where
  "lit s = map of_char s"

fun number_toString :: "nat \<Rightarrow> jsstring" where
  "number_toString n =
     (if n < 10 then [of_nat (48 + n)]
      else number_toString (n div 10) @ [of_nat (48 + n mod 10)])"

declare number_toString.simps [simp del]

section \<open>Entries\<close>

text \<open>
  A \<^verbatim>\<open>ZipEntry\<close> has \<^verbatim>\<open>entryName\<close>, \<^verbatim>\<open>isDirectory\<close> and the closure \<^verbatim>\<open>getData\<close>.  The closure
  captures \<^verbatim>\<open>compressionMethod\<close> and \<^verbatim>\<open>compressedData\<close>; the record holds the two captured
  values and \<open>getData\<close> is a function of the entry.
\<close>

record entry =
  entryName :: jsstring
  isDirectory :: bool
  compressionMethod :: nat
  compressedData :: view

text \<open>
  The body of the closure.  \<^verbatim>\<open>zlib.inflateRawSync\<close> is the runtime's raw-deflate decoder,
  the parameter \<open>inflateRawSync\<close>; \<open>fileBuffer\<close> is the memory the view points into.
\<close>

definition unsupported_message :: "nat \<Rightarrow> jsstring" where
  "unsupported_message method =
     lit (''M'' @ [CHR 0xE9] @ ''thode de compression non support'' @ [CHR 0xE9] @ ''e: '')
     @ number_toString method"

definition getData :: "(buffer \<Rightarrow> error + buffer) \<Rightarrow> buffer \<Rightarrow> entry \<Rightarrow> error + buffer" where
  "getData inflateRawSync fileBuffer e =
     (if compressionMethod e = 8 then inflateRawSync (bytes fileBuffer (compressedData e))
      else if compressionMethod e = 0 then Inr (bytes fileBuffer (compressedData e))
      else Inl (Error (unsupported_message (compressionMethod e))))"

section \<open>Locating the End-Of-Central-Directory record\<close>

text \<open>
  The \<^verbatim>\<open>for\<close> loop of the constructor, from \<open>length - 22\<close> downwards while
  \<open>i \<ge> scanStart\<close>; \<open>eocd_match\<close> is the test in its body, on the four bytes at \<open>i\<close>.  The
  result is \<^verbatim>\<open>eocdPos\<close>, \<open>-1\<close> when no position matches.
\<close>

definition eocd_match :: "buffer \<Rightarrow> int \<Rightarrow> bool" where
  "eocd_match fileBuffer i =
     (byteAt fileBuffer i = Some 0x50 \<and>
      byteAt fileBuffer (i + 1) = Some 0x4B \<and>
      byteAt fileBuffer (i + 2) = Some 0x05 \<and>
      byteAt fileBuffer (i + 3) = Some 0x06)"

function eocd_loop :: "buffer \<Rightarrow> int \<Rightarrow> int \<Rightarrow> int" where
  "eocd_loop fileBuffer scanStart i =
     (if i \<ge> scanStart then
        (if eocd_match fileBuffer i then i
         else eocd_loop fileBuffer scanStart (i - 1))
      else - 1)"
  by pat_completeness auto
termination
  by (relation "measure (\<lambda>(fileBuffer, scanStart, i). nat (i - scanStart + 1))") auto

declare eocd_loop.simps [simp del]

definition find_eocd :: "buffer \<Rightarrow> int" where
  "find_eocd fileBuffer =
     (let maxCommentLength = 0xFFFF;
          scanStart = max 0 (int (length fileBuffer) - (maxCommentLength + 22))
      in eocd_loop fileBuffer scanStart (int (length fileBuffer) - 22))"

section \<open>Walking the central directory\<close>

text \<open>
  One pass through the body of the \<^verbatim>\<open>while (cdCursor < cdEnd)\<close> loop ends in one of three
  ways: \<^verbatim>\<open>break\<close>, \<^verbatim>\<open>continue\<close>, or a pushed entry followed by the cursor update at the
  bottom of the body.  Any of the reads can throw.
\<close>

datatype step = Break | Continue | Push entry nat

definition slash :: jsstring where
  "slash = lit ''/''"

definition cd_body :: "(buffer \<Rightarrow> jsstring) \<Rightarrow> buffer \<Rightarrow> nat \<Rightarrow> error + step" where
  "cd_body utf8 fileBuffer cdCursor =
     bindE (readUInt32LE fileBuffer cdCursor) (\<lambda>signature.
     if signature \<noteq> 0x02014b50 then Inr Break else
     bindE (readUInt16LE fileBuffer (cdCursor + 10)) (\<lambda>compressionMethod.
     bindE (readUInt32LE fileBuffer (cdCursor + 20)) (\<lambda>compressedSize.
     bindE (readUInt32LE fileBuffer (cdCursor + 24)) (\<lambda>uncompressedSize.
     bindE (readUInt16LE fileBuffer (cdCursor + 28)) (\<lambda>fileNameLength.
     bindE (readUInt16LE fileBuffer (cdCursor + 30)) (\<lambda>extraFieldLength.
     bindE (readUInt16LE fileBuffer (cdCursor + 32)) (\<lambda>fileCommentLength.
     bindE (readUInt32LE fileBuffer (cdCursor + 42)) (\<lambda>relativeOffset.
     let fileName = toString utf8 fileBuffer (cdCursor + 46) (cdCursor + 46 + fileNameLength);
         headerOffset = relativeOffset
     in
     bindE (readUInt32LE fileBuffer headerOffset) (\<lambda>localSignature.
     if localSignature \<noteq> 0x04034b50 then Inr Continue else
     bindE (readUInt16LE fileBuffer (headerOffset + 26)) (\<lambda>lfFileNameLength.
     bindE (readUInt16LE fileBuffer (headerOffset + 28)) (\<lambda>lfExtraFieldLength.
     let dataStart = headerOffset + 30 + lfFileNameLength + lfExtraFieldLength;
         compressedData = slice fileBuffer dataStart (dataStart + compressedSize)
     in
     Inr (Push
            \<lparr>entryName = fileName,
             isDirectory = endsWith fileName slash,
             compressionMethod = compressionMethod,
             compressedData = compressedData\<rparr>
            (cdCursor + 46 + fileNameLength + extraFieldLength + fileCommentLength)))))))))))))"

text \<open>
  The loop itself.  \<^verbatim>\<open>continue\<close> jumps back to the loop test with \<^verbatim>\<open>cdCursor\<close> as it was,
  since the cursor update is the last statement of the body.  The loop may therefore run
  forever, and \<open>None\<close> is the constructor that never returns.
\<close>

partial_function (option) cd_walk ::
  "(buffer \<Rightarrow> jsstring) \<Rightarrow> buffer \<Rightarrow> nat \<Rightarrow> nat \<Rightarrow> entry list \<Rightarrow> (error + entry list) option"
where
  "cd_walk utf8 fileBuffer cdEnd cdCursor this_entries =
     (if cdCursor < cdEnd then
        (case cd_body utf8 fileBuffer cdCursor of
           Inl err \<Rightarrow> Some (Inl err)
         | Inr st \<Rightarrow>
             (case st of
                Break \<Rightarrow> Some (Inr this_entries)
              | Continue \<Rightarrow> cd_walk utf8 fileBuffer cdEnd cdCursor this_entries
              | Push e next \<Rightarrow> cd_walk utf8 fileBuffer cdEnd next (this_entries @ [e])))
      else Some (Inr this_entries))"

section \<open>The fallback scan for local headers\<close>

definition localSig :: buffer where
  "localSig = [0x50, 0x4B, 0x03, 0x04]"

text \<open>The body of the fallback loop after a match: the pushed entry and the next offset.\<close>

definition fallback_body :: "(buffer \<Rightarrow> jsstring) \<Rightarrow> buffer \<Rightarrow> nat \<Rightarrow> error + entry \<times> nat" where
  "fallback_body utf8 fileBuffer headerOffset =
     bindE (readUInt16LE fileBuffer (headerOffset + 8)) (\<lambda>compressionMethod.
     bindE (readUInt32LE fileBuffer (headerOffset + 18)) (\<lambda>compressedSize.
     bindE (readUInt32LE fileBuffer (headerOffset + 22)) (\<lambda>uncompressedSize.
     bindE (readUInt16LE fileBuffer (headerOffset + 26)) (\<lambda>fileNameLength.
     bindE (readUInt16LE fileBuffer (headerOffset + 28)) (\<lambda>extraFieldLength.
     let fileNameStart = headerOffset + 30;
         fileName = toString utf8 fileBuffer fileNameStart (fileNameStart + fileNameLength);
         dataStart = fileNameStart + fileNameLength + extraFieldLength;
         compressedData = slice fileBuffer dataStart (dataStart + compressedSize)
     in
     Inr (\<lparr>entryName = fileName,
           isDirectory = endsWith fileName slash,
           compressionMethod = compressionMethod,
           compressedData = compressedData\<rparr>,
          dataStart + compressedSize))))))"

lemma bindE_Inr_iff:
  "bindE m f = Inr r \<longleftrightarrow> (\<exists>v. m = Inr v \<and> f v = Inr r)"
  by (cases m) (simp_all add: bindE_def)

lemma indexOf_ge: "indexOf buf val fromIndex = Some p \<Longrightarrow> fromIndex \<le> p"
proof (induction buf val fromIndex rule: indexOf.induct)
  case (1 buf val fromIndex)
  show ?case
  proof (cases "length buf < fromIndex + length val")
    case True
    with "1.prems" show ?thesis by (simp add: indexOf.simps [of buf val fromIndex])
  next
    case False
    note inside = this
    show ?thesis
    proof (cases "take (length val) (drop fromIndex buf) = val")
      case True
      with inside "1.prems" show ?thesis by (simp add: indexOf.simps [of buf val fromIndex])
    next
      case False
      with inside "1.prems" have "indexOf buf val (fromIndex + 1) = Some p"
        by (simp add: indexOf.simps [of buf val fromIndex])
      with "1.IH" [OF inside False] show ?thesis by simp
    qed
  qed
qed

lemma fallback_body_next:
  assumes "fallback_body utf8 fileBuffer headerOffset = Inr (e, next)"
  shows "headerOffset + 30 \<le> next"
  using assms
  by (auto simp: fallback_body_def bindE_Inr_iff Let_def)

function fallback_scan ::
  "(buffer \<Rightarrow> jsstring) \<Rightarrow> buffer \<Rightarrow> nat \<Rightarrow> entry list \<Rightarrow> error + entry list"
where
  "fallback_scan utf8 fileBuffer currentOffset this_entries =
     (if int currentOffset < int (length fileBuffer) - 4 then
        (case indexOf fileBuffer localSig currentOffset of
           None \<Rightarrow> Inr this_entries
         | Some signaturePos \<Rightarrow>
             (case fallback_body utf8 fileBuffer signaturePos of
                Inl err \<Rightarrow> Inl err
              | Inr (e, next) \<Rightarrow> fallback_scan utf8 fileBuffer next (this_entries @ [e])))
      else Inr this_entries)"
  by pat_completeness auto
termination
proof (relation "measure (\<lambda>(utf8, fileBuffer, currentOffset, this_entries).
                            length fileBuffer - currentOffset)", goal_cases)
  case 1
  show ?case by simp
next
  case (2 utf8 fileBuffer currentOffset this_entries signaturePos r e nxt)
  from 2 have "currentOffset \<le> signaturePos" "signaturePos + 30 \<le> nxt"
    by (auto dest: indexOf_ge fallback_body_next)
  with 2(1) show ?case by simp
qed

declare fallback_scan.simps [simp del]

section \<open>The constructor\<close>

record unzipper =
  entries :: "entry list"

definition getEntries :: "unzipper \<Rightarrow> entry list" where
  "getEntries this = entries this"

text \<open>
  \<open>Unzipper utf8 fileBuffer\<close> is the constructor on the bytes that \<^verbatim>\<open>fs.readFileSync\<close>
  returned: \<open>None\<close> when it never returns, \<open>Some (Inl err)\<close> when it throws, and
  \<open>Some (Inr this)\<close> when it returns the object.
\<close>

definition Unzipper :: "(buffer \<Rightarrow> jsstring) \<Rightarrow> buffer \<Rightarrow> (error + unzipper) option" where
  "Unzipper utf8 fileBuffer =
     (let eocdPos = find_eocd fileBuffer in
      if eocdPos \<noteq> - 1 then
        (case readUInt32LE fileBuffer (nat eocdPos + 16) of
           Inl err \<Rightarrow> Some (Inl err)
         | Inr cdOffset \<Rightarrow>
             (case readUInt32LE fileBuffer (nat eocdPos + 12) of
                Inl err \<Rightarrow> Some (Inl err)
              | Inr cdSize \<Rightarrow>
                  map_option (map_sum id (\<lambda>es. \<lparr>entries = es\<rparr>))
                    (cd_walk utf8 fileBuffer (cdOffset + cdSize) cdOffset [])))
      else Some (map_sum id (\<lambda>es. \<lparr>entries = es\<rparr>) (fallback_scan utf8 fileBuffer 0 [])))"

section \<open>Instances of the runtime's parameters and example archives\<close>

text \<open>
  For concrete archives the two runtime functions are instantiated by fragments of the
  real ones.  \<open>ascii_decode\<close> is UTF-8 decoding on bytes below \<open>0x80\<close>, where every byte is
  the code unit of the same value.  \<open>inflate_stored\<close> is raw inflate on a stream made of one
  final stored block (header byte \<open>01\<close>, \<open>LEN\<close>, its complement \<open>NLEN\<close>, then \<open>LEN\<close> literal
  bytes) and rejects every other stream.
\<close>

definition ascii_decode :: "buffer \<Rightarrow> jsstring" where
  "ascii_decode bs = map ucast bs"

fun inflate_stored :: "buffer \<Rightarrow> error + buffer" where
  "inflate_stored (h # l0 # l1 # n0 # n1 # rest) =
     (let len = unat l0 + unat l1 * 2 ^ 8
      in if h = 1 \<and> unat n0 + unat n1 * 2 ^ 8 = 65535 - len \<and> len \<le> length rest
         then Inr (take len rest)
         else Inl (Error (lit ''invalid stored block lengths'')))"
| "inflate_stored bs = Inl (Error (lit ''unexpected end of file''))"

text \<open>
  \<open>archive_dir\<close>, 110 bytes: a local header at 0 for the stored file \<^verbatim>\<open>a\<close> (name length 1,
  extra length 2, payload \<^verbatim>\<open>hello\<close> at 33), its directory record at 38 (name length 1, extra
  length 0, compressed size 5, local header offset 0), the End-Of-Central-Directory record
  at 85 (directory size 47, directory offset 38) and the archive comment \<^verbatim>\<open>abc\<close>.
\<close>

definition archive_dir :: buffer where
  "archive_dir =
     [0x50, 0x4B, 0x03, 0x04, 20, 0, 0, 0, 0, 0, 0, 0, 0, 0,
      0, 0, 0, 0, 5, 0, 0, 0, 5, 0, 0, 0, 1, 0, 2, 0]
     @ [0x61] @ [0xAA, 0xBB] @ [0x68, 0x65, 0x6C, 0x6C, 0x6F]
     @ [0x50, 0x4B, 0x01, 0x02, 20, 0, 20, 0, 0, 0, 0, 0, 0, 0, 0, 0,
        0, 0, 0, 0, 5, 0, 0, 0, 5, 0, 0, 0, 1, 0, 0, 0, 0, 0, 0, 0, 0, 0,
        0, 0, 0, 0, 0, 0, 0, 0]
     @ [0x61]
     @ [0x50, 0x4B, 0x05, 0x06, 0, 0, 0, 0, 1, 0, 1, 0, 47, 0, 0, 0, 38, 0, 0, 0, 3, 0]
     @ [0x61, 0x62, 0x63]"

text \<open>
  \<open>archive_scan\<close>, 70 bytes, no End-Of-Central-Directory record: a local header at 0 for
  the directory \<^verbatim>\<open>d/\<close> (stored, no payload), and a local header at 32 for the file \<^verbatim>\<open>a\<close>
  (method 8, compressed size 7, payload at 63: the stored-block deflate stream of \<^verbatim>\<open>hi\<close>).
\<close>

definition archive_scan :: buffer where
  "archive_scan =
     [0x50, 0x4B, 0x03, 0x04, 20, 0, 0, 0, 0, 0, 0, 0, 0, 0,
      0, 0, 0, 0, 0, 0, 0, 0, 0, 0, 0, 0, 2, 0, 0, 0]
     @ [0x64, 0x2F]
     @ [0x50, 0x4B, 0x03, 0x04, 20, 0, 0, 0, 8, 0, 0, 0, 0, 0,
        0, 0, 0, 0, 7, 0, 0, 0, 2, 0, 0, 0, 1, 0, 0, 0]
     @ [0x61]
     @ [0x01, 0x02, 0x00, 0xFD, 0xFF, 0x68, 0x69]"

text \<open>
  \<open>archive_m99\<close>, 31 bytes, no End-Of-Central-Directory record: one local header for the
  file \<^verbatim>\<open>z\<close> with compression method 99 and no payload.
\<close>

definition archive_m99 :: buffer where
  "archive_m99 =
     [0x50, 0x4B, 0x03, 0x04, 20, 0, 0, 0, 99, 0, 0, 0, 0, 0,
      0, 0, 0, 0, 0, 0, 0, 0, 0, 0, 0, 0, 1, 0, 0, 0]
     @ [0x7A]"

text \<open>
  \<open>archive_overrun\<close>, 33 bytes, no End-Of-Central-Directory record: one local header for
  the stored file \<^verbatim>\<open>a\<close> whose compressed-size field says 1000, followed by two bytes only.
\<close>

definition archive_overrun :: buffer where
  "archive_overrun =
     [0x50, 0x4B, 0x03, 0x04, 20, 0, 0, 0, 0, 0, 0, 0, 0, 0,
      0, 0, 0, 0, 0xE8, 0x03, 0, 0, 0xE8, 0x03, 0, 0, 1, 0, 0, 0]
     @ [0x61]
     @ [0x68, 0x69]"


text \<open>
  \<open>archive_bad_ref\<close>, 147 bytes: the local header of the empty stored file \<^verbatim>\<open>b\<close> at 0; a
  directory record at 31 for \<^verbatim>\<open>x\<close> whose local header offset is 4, where no local header
  signature stands; a directory record at 78 for \<^verbatim>\<open>b\<close> with local header offset 0; and the
  End-Of-Central-Directory record at 125 (directory size 94, directory offset 31).
\<close>

definition archive_bad_ref :: buffer where
  "archive_bad_ref =
     [0x50, 0x4B, 0x03, 0x04, 20, 0, 0, 0, 0, 0, 0, 0, 0, 0,
      0, 0, 0, 0, 0, 0, 0, 0, 0, 0, 0, 0, 1, 0, 0, 0]
     @ [0x62]
     @ [0x50, 0x4B, 0x01, 0x02, 20, 0, 20, 0, 0, 0, 0, 0, 0, 0, 0, 0,
        0, 0, 0, 0, 0, 0, 0, 0, 0, 0, 0, 0, 1, 0, 0, 0, 0, 0, 0, 0, 0, 0,
        0, 0, 0, 0, 4, 0, 0, 0]
     @ [0x78]
     @ [0x50, 0x4B, 0x01, 0x02, 20, 0, 20, 0, 0, 0, 0, 0, 0, 0, 0, 0,
        0, 0, 0, 0, 0, 0, 0, 0, 0, 0, 0, 0, 1, 0, 0, 0, 0, 0, 0, 0, 0, 0,
        0, 0, 0, 0, 0, 0, 0, 0]
     @ [0x62]
     @ [0x50, 0x4B, 0x05, 0x06, 0, 0, 0, 0, 2, 0, 2, 0, 94, 0, 0, 0, 31, 0, 0, 0, 0, 0]"

text \<open>
  \<open>archive_loop\<close>, 68 bytes: one directory record at 0 whose local header offset is 0, the
  record's own position, and the End-Of-Central-Directory record at 46 (directory size 46,
  directory offset 0).
\<close>

definition archive_loop :: buffer where
  "archive_loop =
     [0x50, 0x4B, 0x01, 0x02, 20, 0, 20, 0, 0, 0, 0, 0, 0, 0, 0, 0,
      0, 0, 0, 0, 0, 0, 0, 0, 0, 0, 0, 0, 0, 0, 0, 0, 0, 0, 0, 0, 0, 0,
      0, 0, 0, 0, 0, 0, 0, 0]
     @ [0x50, 0x4B, 0x05, 0x06, 0, 0, 0, 0, 1, 0, 1, 0, 46, 0, 0, 0, 0, 0, 0, 0, 0, 0]"

text \<open>
  \<open>archive_dir_m99\<close>, 100 bytes: the local header of the empty file \<^verbatim>\<open>z\<close> at 0 with
  compression method 99, its directory record at 31 with the same method and local header
  offset 0, and the End-Of-Central-Directory record at 78 (directory size 47, directory
  offset 31).
\<close>

definition archive_dir_m99 :: buffer where
  "archive_dir_m99 =
     [0x50, 0x4B, 0x03, 0x04, 20, 0, 0, 0, 99, 0, 0, 0, 0, 0,
      0, 0, 0, 0, 0, 0, 0, 0, 0, 0, 0, 0, 1, 0, 0, 0]
     @ [0x7A]
     @ [0x50, 0x4B, 0x01, 0x02, 20, 0, 20, 0, 0, 0, 99, 0, 0, 0, 0, 0,
        0, 0, 0, 0, 0, 0, 0, 0, 0, 0, 0, 0, 1, 0, 0, 0, 0, 0, 0, 0, 0, 0,
        0, 0, 0, 0, 0, 0, 0, 0]
     @ [0x7A]
     @ [0x50, 0x4B, 0x05, 0x06, 0, 0, 0, 0, 1, 0, 1, 0, 47, 0, 0, 0, 31, 0, 0, 0, 0, 0]"

text \<open>
  \<open>archive_comment_sig\<close>, 129 bytes: the first 107 bytes of \<open>archive_dir\<close>, with the comment
  length of the End-Of-Central-Directory record at 85 set to 22, followed by a comment of
  22 bytes that begins with the bytes \<^verbatim>\<open>50 4B 05 06\<close> and is zero after them.
\<close>

definition archive_comment_sig :: buffer where
  "archive_comment_sig =
     [0x50, 0x4B, 0x03, 0x04, 20, 0, 0, 0, 0, 0, 0, 0, 0, 0,
      0, 0, 0, 0, 5, 0, 0, 0, 5, 0, 0, 0, 1, 0, 2, 0]
     @ [0x61] @ [0xAA, 0xBB] @ [0x68, 0x65, 0x6C, 0x6C, 0x6F]
     @ [0x50, 0x4B, 0x01, 0x02, 20, 0, 20, 0, 0, 0, 0, 0, 0, 0, 0, 0,
        0, 0, 0, 0, 5, 0, 0, 0, 5, 0, 0, 0, 1, 0, 0, 0, 0, 0, 0, 0, 0, 0,
        0, 0, 0, 0, 0, 0, 0, 0]
     @ [0x61]
     @ [0x50, 0x4B, 0x05, 0x06, 0, 0, 0, 0, 1, 0, 1, 0, 47, 0, 0, 0, 38, 0, 0, 0, 22, 0]
     @ [0x50, 0x4B, 0x05, 0x06, 0, 0, 0, 0, 0, 0, 0, 0, 0, 0, 0, 0, 0, 0, 0, 0, 0, 0]"

section \<open>Facts about the runtime functions\<close>

lemma bindE_Inl_iff:
  "bindE m f = Inl e \<longleftrightarrow> m = Inl e \<or> (\<exists>v. m = Inr v \<and> f v = Inl e)"
  by (cases m) (simp_all add: bindE_def)

lemma bindE_Inr [simp]: "bindE (Inr v) f = f v"
  by (simp add: bindE_def)

lemma readUInt16LE_Inl: "readUInt16LE buf offset = Inl e \<Longrightarrow> e = RangeError"
  by (simp add: readUInt16LE_def split: if_splits)

lemma readUInt32LE_Inl: "readUInt32LE buf offset = Inl e \<Longrightarrow> e = RangeError"
  by (simp add: readUInt32LE_def split: if_splits)

lemma readUInt16LE_Inr: "readUInt16LE buf offset = Inr v \<Longrightarrow> offset + 2 \<le> length buf"
  by (simp add: readUInt16LE_def split: if_splits)

lemma readUInt32LE_Inr: "readUInt32LE buf offset = Inr v \<Longrightarrow> offset + 4 \<le> length buf"
  by (simp add: readUInt32LE_def split: if_splits)

lemma readUInt16LE_total: "offset + 2 \<le> length buf \<Longrightarrow> \<exists>v. readUInt16LE buf offset = Inr v"
  by (simp add: readUInt16LE_def)

lemma readUInt32LE_total: "offset + 4 \<le> length buf \<Longrightarrow> \<exists>v. readUInt32LE buf offset = Inr v"
  by (simp add: readUInt32LE_def)

lemma slice_in_bounds:
  "byteOffset (slice buf start endpos) + byteLength (slice buf start endpos) \<le> length buf"
  by (simp add: slice_def Let_def)

lemma slice_end:
  "byteOffset (slice buf start endpos) + byteLength (slice buf start endpos) \<le> max start endpos"
  by (auto simp: slice_def Let_def)

lemma slice_exact:
  "start + n \<le> length buf \<Longrightarrow> slice buf start (start + n) = \<lparr>byteOffset = start, byteLength = n\<rparr>"
  by (simp add: slice_def Let_def)

lemma bytes_slice: "bytes buf (slice buf start (start + n)) = take n (drop start buf)"
proof (cases "start \<le> length buf")
  case True
  then show ?thesis
    by (cases "start + n \<le> length buf") (simp_all add: bytes_def slice_def Let_def min_def)
next
  case False
  then show ?thesis by (simp add: bytes_def slice_def Let_def min_def)
qed

lemma endsWith_slash: "endsWith s slash \<longleftrightarrow> s \<noteq> [] \<and> last s = 0x2F"
proof (cases s rule: rev_cases)
  case Nil
  then show ?thesis by (simp add: endsWith_def slash_def lit_def)
next
  case (snoc xs x)
  then show ?thesis by (auto simp: endsWith_def slash_def lit_def)
qed

subsection \<open>indexOf\<close>

lemma indexOf_Some:
  "indexOf buf val fromIndex = Some p \<Longrightarrow>
     fromIndex \<le> p \<and> p + length val \<le> length buf \<and> take (length val) (drop p buf) = val \<and>
     (\<forall>q. fromIndex \<le> q \<and> q < p \<longrightarrow> take (length val) (drop q buf) \<noteq> val)"
proof (induction buf val fromIndex rule: indexOf.induct)
  case (1 buf val fromIndex)
  show ?case
  proof (cases "length buf < fromIndex + length val")
    case True
    with "1.prems" show ?thesis by (simp add: indexOf.simps [of buf val fromIndex])
  next
    case False
    note inside = this
    show ?thesis
    proof (cases "take (length val) (drop fromIndex buf) = val")
      case True
      with inside "1.prems" show ?thesis by (auto simp: indexOf.simps [of buf val fromIndex])
    next
      case False
      with inside "1.prems" have rec: "indexOf buf val (fromIndex + 1) = Some p"
        by (simp add: indexOf.simps [of buf val fromIndex])
      note IH = "1.IH" [OF inside False rec]
      have "take (length val) (drop q buf) \<noteq> val" if "fromIndex \<le> q" "q < p" for q
      proof (cases "q = fromIndex")
        case True
        with False show ?thesis by simp
      next
        case False
        with that IH show ?thesis by simp
      qed
      with IH show ?thesis by simp
    qed
  qed
qed

lemma indexOf_None:
  "indexOf buf val fromIndex = None \<longleftrightarrow>
     (\<forall>q. fromIndex \<le> q \<and> q + length val \<le> length buf \<longrightarrow> take (length val) (drop q buf) \<noteq> val)"
proof (induction buf val fromIndex rule: indexOf.induct)
  case (1 buf val fromIndex)
  show ?case
  proof (cases "length buf < fromIndex + length val")
    case True
    then show ?thesis by (auto simp: indexOf.simps [of buf val fromIndex])
  next
    case False
    note inside = this
    show ?thesis
    proof (cases "take (length val) (drop fromIndex buf) = val")
      case True
      with inside show ?thesis by (auto simp: indexOf.simps [of buf val fromIndex])
    next
      case False
      have "(\<forall>q. fromIndex \<le> q \<and> q + length val \<le> length buf \<longrightarrow> take (length val) (drop q buf) \<noteq> val)
            \<longleftrightarrow> (\<forall>q. fromIndex + 1 \<le> q \<and> q + length val \<le> length buf \<longrightarrow> take (length val) (drop q buf) \<noteq> val)"
        (is "?L \<longleftrightarrow> ?R")
      proof
        assume ?L then show ?R by simp
      next
        assume R: ?R
        show ?L
        proof (intro allI impI)
          fix q assume q: "fromIndex \<le> q \<and> q + length val \<le> length buf"
          show "take (length val) (drop q buf) \<noteq> val"
          proof (cases "q = fromIndex")
            case True with False show ?thesis by simp
          next
            case False with q R show ?thesis by simp
          qed
        qed
      qed
      with "1.IH" [OF inside False] inside False show ?thesis
        by (simp add: indexOf.simps [of buf val fromIndex])
    qed
  qed
qed

subsection \<open>The backward search\<close>

lemma eocd_loop_found:
  "eocd_loop buf scanStart i \<noteq> - 1 \<Longrightarrow> 0 \<le> scanStart \<Longrightarrow>
     scanStart \<le> eocd_loop buf scanStart i \<and> eocd_loop buf scanStart i \<le> i \<and>
     eocd_match buf (eocd_loop buf scanStart i) \<and>
     (\<forall>j. eocd_loop buf scanStart i < j \<and> j \<le> i \<longrightarrow> \<not> eocd_match buf j)"
proof (induction buf scanStart i rule: eocd_loop.induct)
  case (1 buf scanStart i)
  show ?case
  proof (cases "scanStart \<le> i")
    case False
    with "1.prems" show ?thesis by (simp add: eocd_loop.simps [of buf scanStart i])
  next
    case True
    note inside = this
    show ?thesis
    proof (cases "eocd_match buf i")
      case True
      with inside show ?thesis by (auto simp: eocd_loop.simps [of buf scanStart i])
    next
      case False
      with inside have eq: "eocd_loop buf scanStart i = eocd_loop buf scanStart (i - 1)"
        by (simp add: eocd_loop.simps [of buf scanStart i])
      from "1.IH" [OF inside False] "1.prems" eq
      have IH: "scanStart \<le> eocd_loop buf scanStart (i - 1) \<and> eocd_loop buf scanStart (i - 1) \<le> i - 1 \<and>
          eocd_match buf (eocd_loop buf scanStart (i - 1)) \<and>
          (\<forall>j. eocd_loop buf scanStart (i - 1) < j \<and> j \<le> i - 1 \<longrightarrow> \<not> eocd_match buf j)"
        by simp
      have "\<not> eocd_match buf j" if "eocd_loop buf scanStart (i - 1) < j" "j \<le> i" for j
      proof (cases "j = i")
        case True with False show ?thesis by simp
      next
        case False with that IH show ?thesis by simp
      qed
      with IH eq show ?thesis by simp
    qed
  qed
qed

lemma eocd_loop_none:
  "0 \<le> scanStart \<Longrightarrow>
     eocd_loop buf scanStart i = - 1 \<longleftrightarrow> (\<forall>j. scanStart \<le> j \<and> j \<le> i \<longrightarrow> \<not> eocd_match buf j)"
proof (induction buf scanStart i rule: eocd_loop.induct)
  case (1 buf scanStart i)
  show ?case
  proof (cases "scanStart \<le> i")
    case False
    then show ?thesis by (auto simp: eocd_loop.simps [of buf scanStart i])
  next
    case True
    note inside = this
    show ?thesis
    proof (cases "eocd_match buf i")
      case True
      with inside "1.prems" show ?thesis by (auto simp: eocd_loop.simps [of buf scanStart i])
    next
      case False
      with inside have eq: "eocd_loop buf scanStart i = eocd_loop buf scanStart (i - 1)"
        by (simp add: eocd_loop.simps [of buf scanStart i])
      have "(\<forall>j. scanStart \<le> j \<and> j \<le> i \<longrightarrow> \<not> eocd_match buf j)
            \<longleftrightarrow> (\<forall>j. scanStart \<le> j \<and> j \<le> i - 1 \<longrightarrow> \<not> eocd_match buf j)"
        (is "?L \<longleftrightarrow> ?R")
      proof
        assume ?L then show ?R by simp
      next
        assume R: ?R
        show ?L
        proof (intro allI impI)
          fix j assume j: "scanStart \<le> j \<and> j \<le> i"
          show "\<not> eocd_match buf j"
          proof (cases "j = i")
            case True with False show ?thesis by simp
          next
            case False with j R show ?thesis by simp
          qed
        qed
      qed
      with "1.IH" [OF inside False "1.prems"] eq show ?thesis by simp
    qed
  qed
qed

lemma eocd_match_append:
  assumes "eocd_match archive p"
  shows "eocd_match (archive @ comment) p"
proof -
  have "byteAt (archive @ comment) i = Some x" if "byteAt archive i = Some x" for i x
    using that by (auto simp: byteAt_def nth_append split: if_splits)
  with assms show ?thesis by (simp add: eocd_match_def)
qed

lemma find_eocd_found:
  assumes "find_eocd buf \<noteq> - 1"
  shows "max 0 (int (length buf) - (65535 + 22)) \<le> find_eocd buf \<and>
         find_eocd buf \<le> int (length buf) - 22 \<and>
         eocd_match buf (find_eocd buf) \<and>
         (\<forall>j. find_eocd buf < j \<and> j \<le> int (length buf) - 22 \<longrightarrow> \<not> eocd_match buf j)"
  using eocd_loop_found [of buf "max 0 (int (length buf) - (0xFFFF + 22))" "int (length buf) - 22"]
    assms
  by (simp add: find_eocd_def Let_def)

lemma find_eocd_none:
  "find_eocd buf = - 1 \<longleftrightarrow>
     (\<forall>j. max 0 (int (length buf) - (65535 + 22)) \<le> j \<and> j \<le> int (length buf) - 22 \<longrightarrow>
          \<not> eocd_match buf j)"
  using eocd_loop_none [of "max 0 (int (length buf) - (0xFFFF + 22))" buf "int (length buf) - 22"]
  by (simp add: find_eocd_def Let_def)

lemma find_eocd_comment:
  assumes buf: "buf = archive @ comment" and la: "22 \<le> length archive"
    and m: "eocd_match archive (int (length archive) - 22)"
    and lc: "length comment \<le> 65535"
  shows "find_eocd buf \<noteq> - 1" and "int (length archive) - 22 \<le> find_eocd buf"
    and "(\<forall>j. int (length archive) - 22 < j \<longrightarrow> \<not> eocd_match buf j) \<Longrightarrow>
           find_eocd buf = int (length archive) - 22"
proof -
  let ?p = "int (length archive) - 22"
  from m have mb: "eocd_match buf ?p" unfolding buf by (rule eocd_match_append)
  have win: "max 0 (int (length buf) - (65535 + 22)) \<le> ?p \<and> ?p \<le> int (length buf) - 22"
    using la lc by (simp add: buf)
  with mb show found: "find_eocd buf \<noteq> - 1"
    unfolding find_eocd_none by blast
  note f = find_eocd_found [OF found]
  show ge: "?p \<le> find_eocd buf"
  proof (rule ccontr)
    assume "\<not> ?p \<le> find_eocd buf"
    with win f have "\<not> eocd_match buf ?p" by simp
    with mb show False by simp
  qed
  assume later: "\<forall>j. ?p < j \<longrightarrow> \<not> eocd_match buf j"
  show "find_eocd buf = ?p"
  proof (rule ccontr)
    assume "find_eocd buf \<noteq> ?p"
    with ge have "?p < find_eocd buf" by simp
    with later f show False by blast
  qed
qed

subsection \<open>The loop bodies\<close>

lemma fallback_body_Inl: "fallback_body utf8 buf h = Inl e \<Longrightarrow> e = RangeError"
  by (auto simp: fallback_body_def bindE_Inl_iff Let_def
           dest: readUInt16LE_Inl readUInt32LE_Inl)

lemma fallback_body_eq:
  assumes "readUInt16LE buf (h + 8) = Inr method"
    and "readUInt32LE buf (h + 18) = Inr compressedSize"
    and "readUInt16LE buf (h + 26) = Inr nameLen"
    and "readUInt16LE buf (h + 28) = Inr extraLen"
  shows "fallback_body utf8 buf h =
           Inr (\<lparr>entryName = toString utf8 buf (h + 30) (h + 30 + nameLen),
                 isDirectory = endsWith (toString utf8 buf (h + 30) (h + 30 + nameLen)) slash,
                 compressionMethod = method,
                 compressedData = slice buf (h + 30 + nameLen + extraLen)
                                    (h + 30 + nameLen + extraLen + compressedSize)\<rparr>,
                h + 30 + nameLen + extraLen + compressedSize)"
proof -
  from assms(3) have "h + 22 + 4 \<le> length buf" by (auto dest: readUInt16LE_Inr)
  then obtain u where "readUInt32LE buf (h + 22) = Inr u"
    using readUInt32LE_total by blast
  with assms show ?thesis by (simp add: fallback_body_def Let_def)
qed

lemma fallback_body_Inr:
  assumes "fallback_body utf8 buf h = Inr (e, n)"
  shows "\<exists>method compressedSize nameLen extraLen.
           readUInt16LE buf (h + 8) = Inr method \<and>
           readUInt32LE buf (h + 18) = Inr compressedSize \<and>
           readUInt16LE buf (h + 26) = Inr nameLen \<and>
           readUInt16LE buf (h + 28) = Inr extraLen \<and>
           e = \<lparr>entryName = toString utf8 buf (h + 30) (h + 30 + nameLen),
                 isDirectory = endsWith (toString utf8 buf (h + 30) (h + 30 + nameLen)) slash,
                 compressionMethod = method,
                 compressedData = slice buf (h + 30 + nameLen + extraLen)
                                    (h + 30 + nameLen + extraLen + compressedSize)\<rparr> \<and>
           n = h + 30 + nameLen + extraLen + compressedSize"
  using assms by (auto simp: fallback_body_def bindE_Inr_iff Let_def)

lemma fallback_body_total:
  assumes "h + 30 \<le> length buf"
  shows "\<exists>e n. fallback_body utf8 buf h = Inr (e, n)"
proof -
  from assms obtain m c nl xl where "readUInt16LE buf (h + 8) = Inr m"
    "readUInt32LE buf (h + 18) = Inr c" "readUInt16LE buf (h + 26) = Inr nl"
    "readUInt16LE buf (h + 28) = Inr xl"
    using readUInt16LE_total [of "h + 8" buf] readUInt32LE_total [of "h + 18" buf]
      readUInt16LE_total [of "h + 26" buf] readUInt16LE_total [of "h + 28" buf]
    by auto
  from fallback_body_eq [OF this] show ?thesis by blast
qed

lemma cd_body_Inl: "cd_body utf8 buf c = Inl e \<Longrightarrow> e = RangeError"
  by (auto simp: cd_body_def bindE_Inl_iff Let_def split: if_splits
           dest: readUInt16LE_Inl readUInt32LE_Inl)

lemma cd_body_eq:
  assumes "readUInt32LE buf c = Inr 0x02014b50"
    and "readUInt16LE buf (c + 10) = Inr method"
    and "readUInt32LE buf (c + 20) = Inr compressedSize"
    and "readUInt16LE buf (c + 28) = Inr nameLen"
    and "readUInt16LE buf (c + 30) = Inr extraLen"
    and "readUInt16LE buf (c + 32) = Inr commentLen"
    and "readUInt32LE buf (c + 42) = Inr localHeaderOffset"
    and "readUInt32LE buf localHeaderOffset = Inr 0x04034b50"
    and "readUInt16LE buf (localHeaderOffset + 26) = Inr localNameLen"
    and "readUInt16LE buf (localHeaderOffset + 28) = Inr localExtraLen"
  shows "cd_body utf8 buf c =
           Inr (Push
                 \<lparr>entryName = toString utf8 buf (c + 46) (c + 46 + nameLen),
                  isDirectory = endsWith (toString utf8 buf (c + 46) (c + 46 + nameLen)) slash,
                  compressionMethod = method,
                  compressedData =
                    slice buf (localHeaderOffset + 30 + localNameLen + localExtraLen)
                      (localHeaderOffset + 30 + localNameLen + localExtraLen + compressedSize)\<rparr>
                 (c + 46 + nameLen + extraLen + commentLen))"
proof -
  from assms(4) have "c + 24 + 4 \<le> length buf" by (auto dest: readUInt16LE_Inr)
  then obtain u where "readUInt32LE buf (c + 24) = Inr u"
    using readUInt32LE_total by blast
  with assms show ?thesis by (simp add: cd_body_def Let_def)
qed

lemma cd_body_Push:
  assumes "cd_body utf8 buf c = Inr (Push e n)"
  shows "\<exists>method compressedSize nameLen extraLen commentLen localHeaderOffset
            localNameLen localExtraLen.
           readUInt32LE buf c = Inr 0x02014b50 \<and>
           readUInt16LE buf (c + 10) = Inr method \<and>
           readUInt32LE buf (c + 20) = Inr compressedSize \<and>
           readUInt16LE buf (c + 28) = Inr nameLen \<and>
           readUInt16LE buf (c + 30) = Inr extraLen \<and>
           readUInt16LE buf (c + 32) = Inr commentLen \<and>
           readUInt32LE buf (c + 42) = Inr localHeaderOffset \<and>
           readUInt32LE buf localHeaderOffset = Inr 0x04034b50 \<and>
           readUInt16LE buf (localHeaderOffset + 26) = Inr localNameLen \<and>
           readUInt16LE buf (localHeaderOffset + 28) = Inr localExtraLen \<and>
           e = \<lparr>entryName = toString utf8 buf (c + 46) (c + 46 + nameLen),
                 isDirectory = endsWith (toString utf8 buf (c + 46) (c + 46 + nameLen)) slash,
                 compressionMethod = method,
                 compressedData =
                   slice buf (localHeaderOffset + 30 + localNameLen + localExtraLen)
                     (localHeaderOffset + 30 + localNameLen + localExtraLen + compressedSize)\<rparr> \<and>
           n = c + 46 + nameLen + extraLen + commentLen"
  using assms by (auto simp: cd_body_def bindE_Inr_iff Let_def split: if_splits)

lemma cd_body_Continue:
  assumes "readUInt32LE buf c = Inr 0x02014b50"
    and "readUInt32LE buf (c + 42) = Inr localHeaderOffset"
    and "readUInt32LE buf localHeaderOffset = Inr v" and "v \<noteq> 0x04034b50"
  shows "cd_body utf8 buf c = Inr Continue"
proof -
  from assms(2) have len: "c + 46 \<le> length buf" by (auto dest: readUInt32LE_Inr)
  from len obtain a where a: "readUInt16LE buf (c + 10) = Inr a"
    using readUInt16LE_total [of "c + 10" buf] by auto
  from len obtain b where b: "readUInt32LE buf (c + 20) = Inr b"
    using readUInt32LE_total [of "c + 20" buf] by auto
  from len obtain d where d: "readUInt32LE buf (c + 24) = Inr d"
    using readUInt32LE_total [of "c + 24" buf] by auto
  from len obtain e where e: "readUInt16LE buf (c + 28) = Inr e"
    using readUInt16LE_total [of "c + 28" buf] by auto
  from len obtain f where f: "readUInt16LE buf (c + 30) = Inr f"
    using readUInt16LE_total [of "c + 30" buf] by auto
  from len obtain g where g: "readUInt16LE buf (c + 32) = Inr g"
    using readUInt16LE_total [of "c + 32" buf] by auto
  from assms a b d e f g show ?thesis by (simp add: cd_body_def Let_def)
qed

lemma cd_body_total:
  assumes "readUInt32LE buf c = Inr 0x02014b50"
    and "readUInt32LE buf (c + 42) = Inr localHeaderOffset"
    and "readUInt32LE buf localHeaderOffset = Inr 0x04034b50"
    and "localHeaderOffset + 30 \<le> length buf"
  shows "\<exists>e next. cd_body utf8 buf c = Inr (Push e next)"
proof -
  from assms(2) have len: "c + 46 \<le> length buf" by (auto dest: readUInt32LE_Inr)
  from len obtain a where a: "readUInt16LE buf (c + 10) = Inr a"
    using readUInt16LE_total [of "c + 10" buf] by auto
  from len obtain b where b: "readUInt32LE buf (c + 20) = Inr b"
    using readUInt32LE_total [of "c + 20" buf] by auto
  from len obtain d where d: "readUInt16LE buf (c + 28) = Inr d"
    using readUInt16LE_total [of "c + 28" buf] by auto
  from len obtain f where f: "readUInt16LE buf (c + 30) = Inr f"
    using readUInt16LE_total [of "c + 30" buf] by auto
  from len obtain g where g: "readUInt16LE buf (c + 32) = Inr g"
    using readUInt16LE_total [of "c + 32" buf] by auto
  from assms(4) obtain ln where ln: "readUInt16LE buf (localHeaderOffset + 26) = Inr ln"
    using readUInt16LE_total [of "localHeaderOffset + 26" buf] by auto
  from assms(4) obtain lx where lx: "readUInt16LE buf (localHeaderOffset + 28) = Inr lx"
    using readUInt16LE_total [of "localHeaderOffset + 28" buf] by auto
  from cd_body_eq [OF assms(1) a b d f g assms(2,3) ln lx, of utf8]
  show "\<exists>e next. cd_body utf8 buf c = Inr (Push e next)" by blast
qed

subsection \<open>Rules for the two loops\<close>

lemma fallback_scan_rule:
  assumes init: "I c acc"
    and step: "\<And>c acc h e n. I c acc \<Longrightarrow> int c < int (length buf) - 4 \<Longrightarrow>
                 indexOf buf localSig c = Some h \<Longrightarrow> fallback_body utf8 buf h = Inr (e, n) \<Longrightarrow>
                 I n (acc @ [e])"
    and fin: "\<And>c acc. I c acc \<Longrightarrow> R (Inr acc)"
    and err: "\<And>h e. fallback_body utf8 buf h = Inl e \<Longrightarrow> R (Inl e)"
  shows "R (fallback_scan utf8 buf c acc)"
  using assms
proof (induction utf8 buf c acc rule: fallback_scan.induct)
  case (1 utf8 buf c acc)
  note simps = fallback_scan.simps [of utf8 buf c acc]
  note init = "1.prems"(1) and step = "1.prems"(2) and fin = "1.prems"(3) and err = "1.prems"(4)
  show ?case
  proof (cases "int c < int (length buf) - 4")
    case False
    with fin [OF init] show ?thesis by (simp add: simps)
  next
    case True
    note inside = this
    show ?thesis
    proof (cases "indexOf buf localSig c")
      case None
      with inside fin [OF init] show ?thesis by (simp add: simps)
    next
      case (Some h)
      show ?thesis
      proof (cases "fallback_body utf8 buf h")
        case (Inl e)
        with inside Some err [OF Inl] show ?thesis by (simp add: simps)
      next
        case (Inr p)
        obtain e n where p: "p = (e, n)" by (cases p)
        from step [OF init inside Some Inr [unfolded p]]
        have "I n (acc @ [e])" .
        from "1.IH" [OF inside Some Inr p [symmetric] this step fin err]
        show ?thesis using inside Some Inr p by (simp add: simps)
      qed
    qed
  qed
qed

lemma cd_walk_rule:
  assumes run: "cd_walk utf8 buf cdEnd c acc = Some r"
    and init: "I acc"
    and step: "\<And>acc c e n. I acc \<Longrightarrow> cd_body utf8 buf c = Inr (Push e n) \<Longrightarrow> I (acc @ [e])"
    and fin: "\<And>acc. I acc \<Longrightarrow> R (Inr acc)"
    and err: "\<And>c e. cd_body utf8 buf c = Inl e \<Longrightarrow> R (Inl e)"
  shows "R r"
proof -
  have "utf8 = utf8 \<and> buf = buf \<longrightarrow> I acc \<longrightarrow> R r"
  proof (rule cd_walk.raw_induct
      [where P = "\<lambda>u b ce cc acc r. u = utf8 \<and> b = buf \<longrightarrow> I acc \<longrightarrow> R r", OF _ run])
    fix f u b ce cc acc r
    assume IH: "\<And>u b ce cc acc r. f u b ce cc acc = Some r \<Longrightarrow>
                 u = utf8 \<and> b = buf \<longrightarrow> I acc \<longrightarrow> R r"
      and unfold: "(if cc < ce then
              (case cd_body u b cc of
                 Inl err \<Rightarrow> Some (Inl err)
               | Inr st \<Rightarrow>
                   (case st of
                      Break \<Rightarrow> Some (Inr acc)
                    | Continue \<Rightarrow> f u b ce cc acc
                    | Push e next \<Rightarrow> f u b ce next (acc @ [e])))
            else Some (Inr acc)) = Some r"
    show "u = utf8 \<and> b = buf \<longrightarrow> I acc \<longrightarrow> R r"
    proof (intro impI, elim conjE)
      assume u: "u = utf8" and b: "b = buf" and inv: "I acc"
      show "R r"
      proof (cases "cc < ce")
        case False
        with unfold fin [OF inv] show ?thesis by auto
      next
        case True
        show ?thesis
        proof (cases "cd_body u b cc")
          case (Inl e)
          with True unfold err [of cc e] u b show ?thesis by auto
        next
          case (Inr st)
          show ?thesis
          proof (cases st)
            case Break
            with True Inr unfold fin [OF inv] show ?thesis by auto
          next
            case Continue
            with True Inr unfold have "f u b ce cc acc = Some r" by simp
            from IH [OF this] u b inv show ?thesis by simp
          next
            case (Push e n)
            with True Inr unfold have next_run: "f u b ce n (acc @ [e]) = Some r" by simp
            from Inr Push u b have "cd_body utf8 buf cc = Inr (Push e n)" by simp
            from step [OF inv this] IH [OF next_run] u b show ?thesis by simp
          qed
        qed
      qed
    qed
  qed
  with init show ?thesis by simp
qed

lemma cd_walk_continue_diverges:
  assumes "cdCursor < cdEnd" and "cd_body utf8 buf cdCursor = Inr Continue"
  shows "cd_walk utf8 buf cdEnd cdCursor acc = None"
proof (rule ccontr)
  assume "cd_walk utf8 buf cdEnd cdCursor acc \<noteq> None"
  then obtain y where y: "cd_walk utf8 buf cdEnd cdCursor acc = Some y" by auto
  have "\<not> (cdCursor < cdEnd \<and> cd_body utf8 buf cdCursor = Inr Continue)"
  proof (rule cd_walk.raw_induct
      [where P = "\<lambda>u b ce cc es r. \<not> (cc < ce \<and> cd_body u b cc = Inr Continue)", OF _ y])
    fix f u b ce cc es r
    assume IH: "\<And>u b ce cc es r. f u b ce cc es = Some r \<Longrightarrow>
                  \<not> (cc < ce \<and> cd_body u b cc = Inr Continue)"
      and unfold: "(if cc < ce then
              (case cd_body u b cc of
                 Inl err \<Rightarrow> Some (Inl err)
               | Inr st \<Rightarrow>
                   (case st of
                      Break \<Rightarrow> Some (Inr es)
                    | Continue \<Rightarrow> f u b ce cc es
                    | Push e next \<Rightarrow> f u b ce next (es @ [e])))
            else Some (Inr es)) = Some r"
    show "\<not> (cc < ce \<and> cd_body u b cc = Inr Continue)"
    proof
      assume a: "cc < ce \<and> cd_body u b cc = Inr Continue"
      with unfold have "f u b ce cc es = Some r" by simp
      from IH [OF this] a show False by simp
    qed
  qed
  with assms show False by simp
qed

lemma cd_walk_Push:
  assumes "cdCursor < cdEnd" and "cd_body utf8 buf cdCursor = Inr (Push e n)"
  shows "cd_walk utf8 buf cdEnd cdCursor acc = cd_walk utf8 buf cdEnd n (acc @ [e])"
  using assms by (subst cd_walk.simps) simp

lemma cd_walk_done:
  assumes "\<not> cdCursor < cdEnd"
  shows "cd_walk utf8 buf cdEnd cdCursor acc = Some (Inr acc)"
  using assms by (subst cd_walk.simps) simp

lemma cd_walk_Break:
  assumes "cdCursor < cdEnd" and "cd_body utf8 buf cdCursor = Inr Break"
  shows "cd_walk utf8 buf cdEnd cdCursor acc = Some (Inr acc)"
  using assms by (subst cd_walk.simps) simp

lemma fallback_scan_ends:
  assumes "int (length buf) - 4 \<le> int c"
  shows "fallback_scan utf8 buf c acc = Inr acc"
  using assms by (simp add: fallback_scan.simps [of utf8 buf c acc])

lemma cd_walk_bad_local_header_diverges:
  assumes "cdCursor < cdEnd"
    and "readUInt32LE buf cdCursor = Inr 0x02014b50"
    and "readUInt32LE buf (cdCursor + 42) = Inr localHeaderOffset"
    and "readUInt32LE buf localHeaderOffset = Inr v" and "v \<noteq> 0x04034b50"
  shows "cd_walk utf8 buf cdEnd cdCursor acc = None"
  by (rule cd_walk_continue_diverges [OF assms(1) cd_body_Continue [OF assms(2-5)]])

lemma cd_walk_returns:
  assumes "\<And>c. c < cdEnd \<Longrightarrow> cd_body utf8 buf c \<noteq> Inr Continue"
  shows "\<exists>r. cd_walk utf8 buf cdEnd cdCursor acc = Some r"
proof (induction "cdEnd - cdCursor" arbitrary: cdCursor acc rule: less_induct)
  case less
  show ?case
  proof (cases "cdCursor < cdEnd")
    case False
    then show ?thesis by (simp add: cd_walk_done)
  next
    case True
    show ?thesis
    proof (cases "cd_body utf8 buf cdCursor")
      case (Inl e)
      with True show ?thesis by (subst cd_walk.simps) simp
    next
      case (Inr st)
      show ?thesis
      proof (cases st)
        case Break
        with True Inr show ?thesis by (simp add: cd_walk_Break)
      next
        case Continue
        with True Inr assms [of cdCursor] show ?thesis by simp
      next
        case (Push e n)
        with Inr have body: "cd_body utf8 buf cdCursor = Inr (Push e n)" by simp
        from cd_body_Push [OF body] have "cdCursor < n" by auto
        with True have "cdEnd - n < cdEnd - cdCursor" by simp
        from less [OF this] cd_walk_Push [OF True body] show ?thesis by simp
      qed
    qed
  qed
qed

lemma fallback_scan_extends:
  assumes "fallback_scan utf8 buf c acc = Inr es"
  shows "\<exists>rest. es = acc @ rest"
proof -
  have "\<forall>es. fallback_scan utf8 buf c acc = Inr es \<longrightarrow> (\<exists>rest. es = acc @ rest)"
    by (rule fallback_scan_rule [where I = "\<lambda>c a. \<exists>rest. a = acc @ rest"]) auto
  with assms show ?thesis by blast
qed

lemma fallback_scan_order:
  assumes "fallback_scan utf8 buf 0 [] = Inr es"
  shows "sorted_wrt (\<lambda>a b. byteOffset (compressedData a) + byteLength (compressedData a) + 30
                          \<le> byteOffset (compressedData b)) es"
proof -
  let ?R = "\<lambda>(a::entry) (b::entry).
              byteOffset (compressedData a) + byteLength (compressedData a) + 30
                \<le> byteOffset (compressedData b)"
  let ?I = "\<lambda>(c::nat) (a::entry list). sorted_wrt ?R a \<and>
                  (\<forall>x\<in>set a. byteOffset (compressedData x) + byteLength (compressedData x) \<le> c)"
  have "\<forall>es. fallback_scan utf8 buf 0 [] = Inr es \<longrightarrow> sorted_wrt ?R es"
  proof (rule fallback_scan_rule [where I = ?I])
    show "?I 0 []" by simp
  next
    fix c a h e n
    assume inv: "?I c a" and "int c < int (length buf) - 4"
      and found: "indexOf buf localSig c = Some h"
      and body: "fallback_body utf8 buf h = Inr (e, n)"
    from indexOf_Some [OF found] have ch: "c \<le> h" by simp
    from fallback_body_Inr [OF body] obtain k nl xl where
      xl: "readUInt16LE buf (h + 28) = Inr xl"
      and view: "compressedData e = slice buf (h + 30 + nl + xl) (h + 30 + nl + xl + k)"
      and n: "n = h + 30 + nl + xl + k"
      by auto
    from xl have hb: "h + 30 \<le> length buf" by (auto dest: readUInt16LE_Inr)
    have start: "h + 30 \<le> byteOffset (compressedData e)"
      using hb by (simp add: view slice_def Let_def)
    have stop: "byteOffset (compressedData e) + byteLength (compressedData e) \<le> n"
      using slice_end [of buf "h + 30 + nl + xl" "h + 30 + nl + xl + k"] by (simp add: view n)
    have "\<forall>x\<in>set a. ?R x e"
    proof
      fix x assume "x \<in> set a"
      with inv have "byteOffset (compressedData x) + byteLength (compressedData x) \<le> c" by blast
      with ch start show "?R x e" by simp
    qed
    moreover have "\<forall>x\<in>set a. byteOffset (compressedData x) + byteLength (compressedData x) \<le> n"
    proof
      fix x assume "x \<in> set a"
      with inv have "byteOffset (compressedData x) + byteLength (compressedData x) \<le> c" by blast
      with ch n show "byteOffset (compressedData x) + byteLength (compressedData x) \<le> n" by simp
    qed
    ultimately show "?I n (a @ [e])"
      using inv stop by (simp add: sorted_wrt_append)
  next
    fix c a
    assume "?I c a"
    then show "\<forall>es. (Inr a :: error + entry list) = Inr es \<longrightarrow> sorted_wrt ?R es" by simp
  next
    fix h e
    assume "fallback_body utf8 buf h = Inl e"
    show "\<forall>es. (Inl e :: error + entry list) = Inr es \<longrightarrow> sorted_wrt ?R es" by simp
  qed
  with assms show ?thesis by blast
qed

lemma fallback_scan_step:
  assumes "int c < int (length buf) - 4"
    and "indexOf buf localSig c = Some h"
    and "fallback_body utf8 buf h = Inr (e, n)"
  shows "fallback_scan utf8 buf c acc = fallback_scan utf8 buf n (acc @ [e])"
  using assms by (simp add: fallback_scan.simps [of utf8 buf c acc])

subsection \<open>The constructor\<close>

lemma Unzipper_fallback:
  "find_eocd buf = - 1 \<Longrightarrow>
     Unzipper utf8 buf = Some (map_sum id (\<lambda>es. \<lparr>entries = es\<rparr>) (fallback_scan utf8 buf 0 []))"
  by (simp add: Unzipper_def)

lemma Unzipper_directory:
  "find_eocd buf = p \<Longrightarrow> p \<noteq> - 1 \<Longrightarrow> readUInt32LE buf (nat p + 16) = Inr cdOffset \<Longrightarrow>
     readUInt32LE buf (nat p + 12) = Inr cdSize \<Longrightarrow>
     Unzipper utf8 buf =
       map_option (map_sum id (\<lambda>es. \<lparr>entries = es\<rparr>))
         (cd_walk utf8 buf (cdOffset + cdSize) cdOffset [])"
  by (simp add: Unzipper_def)

lemma Unzipper_entries_inv:
  assumes run: "Unzipper utf8 buf = Some (Inr this)"
    and dir: "\<And>c e n. cd_body utf8 buf c = Inr (Push e n) \<Longrightarrow> Q e"
    and scan: "\<And>h e n. fallback_body utf8 buf h = Inr (e, n) \<Longrightarrow> Q e"
  shows "\<forall>e\<in>set (getEntries this). Q e"
proof (cases "find_eocd buf = - 1")
  case True
  with run have r: "fallback_scan utf8 buf 0 [] = Inr (entries this)"
    by (cases "fallback_scan utf8 buf 0 []") (auto simp: Unzipper_def Let_def)
  have "\<forall>es. fallback_scan utf8 buf 0 [] = Inr es \<longrightarrow> (\<forall>e\<in>set es. Q e)"
    by (rule fallback_scan_rule [where I = "\<lambda>c acc. \<forall>e\<in>set acc. Q e"])
       (auto dest: scan)
  with r show ?thesis by (simp add: getEntries_def)
next
  case False
  with run obtain cdOffset cdSize r where
    w: "cd_walk utf8 buf (cdOffset + cdSize) cdOffset [] = Some r"
    and r: "map_sum id (\<lambda>es. \<lparr>entries = es\<rparr>) r = Inr this"
    by (auto simp: Unzipper_def Let_def split: sum.splits)
  have "\<forall>es. r = Inr es \<longrightarrow> (\<forall>e\<in>set es. Q e)"
    by (rule cd_walk_rule [OF w, where I = "\<lambda>acc. \<forall>e\<in>set acc. Q e"])
       (auto dest: dir)
  with r show ?thesis by (cases r) (auto simp: getEntries_def)
qed

lemma Unzipper_diverges:
  assumes "find_eocd buf = p" and "p \<noteq> - 1"
    and "readUInt32LE buf (nat p + 16) = Inr cdOffset"
    and "readUInt32LE buf (nat p + 12) = Inr cdSize"
    and "cd_walk utf8 buf (cdOffset + cdSize) cdOffset [] = None"
  shows "Unzipper utf8 buf = None"
  using Unzipper_directory [OF assms(1-4), of utf8] assms(5) by simp

lemma no_occurrence_iff:
  assumes "val \<noteq> []"
  shows "indexOf buf val 0 = None \<longleftrightarrow> (\<forall>p. take (length val) (drop p buf) \<noteq> val)"
proof -
  have short: "take (length val) (drop p buf) \<noteq> val" if "\<not> p + length val \<le> length buf" for p
  proof
    assume "take (length val) (drop p buf) = val"
    then have "length (take (length val) (drop p buf)) = length val" by simp
    with that assms show False by (cases val) auto
  qed
  show ?thesis
    unfolding indexOf_None
  proof
    assume inside: "\<forall>q. 0 \<le> q \<and> q + length val \<le> length buf \<longrightarrow>
                      take (length val) (drop q buf) \<noteq> val"
    show "\<forall>p. take (length val) (drop p buf) \<noteq> val"
    proof
      fix p
      show "take (length val) (drop p buf) \<noteq> val"
      proof (cases "p + length val \<le> length buf")
        case True
        with inside show ?thesis by blast
      next
        case False
        then show ?thesis by (rule short)
      qed
    qed
  next
    assume "\<forall>p. take (length val) (drop p buf) \<noteq> val"
    then show "\<forall>q. 0 \<le> q \<and> q + length val \<le> length buf \<longrightarrow>
                 take (length val) (drop q buf) \<noteq> val"
      by blast
  qed
qed

lemma localSig_length: "length localSig = 4" and localSig_nonempty: "localSig \<noteq> []"
  by (simp_all add: localSig_def)

lemma find_eocd_short:
  assumes "length buf < 22"
  shows "find_eocd buf = - 1"
  using assms by (simp add: find_eocd_def Let_def eocd_loop.simps)

lemma Unzipper_Inl:
  assumes "Unzipper utf8 buf = Some (Inl err)"
  shows "err = RangeError"
proof (cases "find_eocd buf = - 1")
  case True
  have "\<forall>e. fallback_scan utf8 buf 0 [] = Inl e \<longrightarrow> e = RangeError"
    by (rule fallback_scan_rule [where I = "\<lambda>c acc. True"])
       (auto dest: fallback_body_Inl)
  with True assms show ?thesis
    by (cases "fallback_scan utf8 buf 0 []") (auto simp: Unzipper_fallback)
next
  case False
  show ?thesis
  proof (cases "readUInt32LE buf (nat (find_eocd buf) + 16)")
    case (Inl e)
    with False assms show ?thesis by (auto simp: Unzipper_def Let_def dest: readUInt32LE_Inl)
  next
    case off: (Inr cdOffset)
    show ?thesis
    proof (cases "readUInt32LE buf (nat (find_eocd buf) + 12)")
      case (Inl e)
      with False off assms show ?thesis
        by (auto simp: Unzipper_def Let_def dest: readUInt32LE_Inl)
    next
      case sz: (Inr cdSize)
      from assms Unzipper_directory [OF refl False off sz, of utf8]
      obtain r where w: "cd_walk utf8 buf (cdOffset + cdSize) cdOffset [] = Some r"
        and r: "map_sum id (\<lambda>es. \<lparr>entries = es\<rparr>) r = Inl err"
        by auto
      have "\<forall>e. r = Inl e \<longrightarrow> e = RangeError"
        by (rule cd_walk_rule [OF w, where I = "\<lambda>acc. True"]) (auto dest: cd_body_Inl)
      with r show ?thesis by (cases r) auto
    qed
  qed
qed

subsection \<open>Entries and the headers they come from\<close>

lemma slice_clamp:
  "byteOffset (slice buf start (start + n)) = min start (length buf) \<and>
   byteOffset (slice buf start (start + n)) + byteLength (slice buf start (start + n))
     = min (start + n) (length buf)"
  by (auto simp: slice_def Let_def min_def)




lemma cd_walk_extends:
  assumes "cd_walk utf8 buf cdEnd c acc = Some (Inr es)"
  shows "\<exists>rest. es = acc @ rest"
proof -
  have "\<forall>es'. (Inr es :: error + entry list) = Inr es' \<longrightarrow> (\<exists>rest. es' = acc @ rest)"
    by (rule cd_walk_rule [OF assms, where I = "\<lambda>a. \<exists>rest. a = acc @ rest"
          and R = "\<lambda>r. \<forall>es'. r = Inr es' \<longrightarrow> (\<exists>rest. es' = acc @ rest)"]) auto
  then show ?thesis by blast
qed

lemma find_eocd_comment_iff:
  assumes buf: "buf = archive @ comment" and la: "22 \<le> length archive"
    and m: "eocd_match archive (int (length archive) - 22)"
    and lc: "length comment \<le> 65535"
  shows "find_eocd buf = int (length archive) - 22 \<longleftrightarrow>
           (\<forall>j. int (length archive) - 22 < j \<and> j \<le> int (length buf) - 22 \<longrightarrow> \<not> eocd_match buf j)"
proof
  assume eq: "find_eocd buf = int (length archive) - 22"
  from find_eocd_comment(1) [OF assms] have "find_eocd buf \<noteq> - 1" .
  from find_eocd_found [OF this] eq
  show "\<forall>j. int (length archive) - 22 < j \<and> j \<le> int (length buf) - 22 \<longrightarrow> \<not> eocd_match buf j"
    by simp
next
  assume later: "\<forall>j. int (length archive) - 22 < j \<and> j \<le> int (length buf) - 22 \<longrightarrow>
                   \<not> eocd_match buf j"
  from find_eocd_comment(1) [OF assms] have found: "find_eocd buf \<noteq> - 1" .
  note f = find_eocd_found [OF found]
  from find_eocd_comment(2) [OF assms] have ge: "int (length archive) - 22 \<le> find_eocd buf" .
  show "find_eocd buf = int (length archive) - 22"
  proof (rule ccontr)
    assume "find_eocd buf \<noteq> int (length archive) - 22"
    with ge have "int (length archive) - 22 < find_eocd buf" by simp
    with later f show False by blast
  qed
qed

lemma fallback_scan_lists_method:
  assumes "int currentOffset < int (length buf) - 4"
    and "indexOf buf localSig currentOffset = Some headerOffset"
    and "headerOffset + 30 \<le> length buf"
    and "readUInt16LE buf (headerOffset + 8) = Inr m"
  shows "\<exists>e next. fallback_body utf8 buf headerOffset = Inr (e, next) \<and>
           compressionMethod e = m \<and>
           fallback_scan utf8 buf currentOffset acc = fallback_scan utf8 buf next (acc @ [e]) \<and>
           (\<forall>es. fallback_scan utf8 buf currentOffset acc = Inr es \<longrightarrow> e \<in> set es) \<and>
           (int (length buf) - 4 \<le> int next \<longrightarrow>
              fallback_scan utf8 buf currentOffset acc = Inr (acc @ [e]))"
proof -
  from fallback_body_total [OF assms(3), of utf8] obtain e n where
    b: "fallback_body utf8 buf headerOffset = Inr (e, n)" by blast
  from fallback_body_Inr [OF b] assms(4) have cm: "compressionMethod e = m" by auto
  note step = fallback_scan_step [OF assms(1,2) b, of acc]
  have "e \<in> set es" if "fallback_scan utf8 buf currentOffset acc = Inr es" for es
  proof -
    from that step have "fallback_scan utf8 buf n (acc @ [e]) = Inr es" by simp
    from fallback_scan_extends [OF this] show ?thesis by auto
  qed
  moreover have "fallback_scan utf8 buf currentOffset acc = Inr (acc @ [e])"
    if "int (length buf) - 4 \<le> int n"
    using step fallback_scan_ends [OF that, of utf8 "acc @ [e]"] by simp
  ultimately show ?thesis using b cm step by blast
qed

lemma cd_walk_lists_method:
  assumes "cdCursor < cdEnd"
    and "readUInt32LE buf cdCursor = Inr 0x02014b50"
    and "readUInt16LE buf (cdCursor + 10) = Inr m"
    and "readUInt32LE buf (cdCursor + 42) = Inr localHeaderOffset"
    and "readUInt32LE buf localHeaderOffset = Inr 0x04034b50"
    and "localHeaderOffset + 30 \<le> length buf"
  shows "\<exists>e next. cd_body utf8 buf cdCursor = Inr (Push e next) \<and>
           compressionMethod e = m \<and>
           cd_walk utf8 buf cdEnd cdCursor acc = cd_walk utf8 buf cdEnd next (acc @ [e]) \<and>
           (\<forall>es. cd_walk utf8 buf cdEnd cdCursor acc = Some (Inr es) \<longrightarrow> e \<in> set es) \<and>
           (\<not> next < cdEnd \<longrightarrow> cd_walk utf8 buf cdEnd cdCursor acc = Some (Inr (acc @ [e])))"
proof -
  from cd_body_total [OF assms(2,4,5,6), of utf8] obtain e n where
    b: "cd_body utf8 buf cdCursor = Inr (Push e n)" by blast
  from cd_body_Push [OF b] assms(3) have cm: "compressionMethod e = m" by auto
  note step = cd_walk_Push [OF assms(1) b, of acc]
  have "e \<in> set es" if "cd_walk utf8 buf cdEnd cdCursor acc = Some (Inr es)" for es
  proof -
    from that step have "cd_walk utf8 buf cdEnd n (acc @ [e]) = Some (Inr es)" by simp
    from cd_walk_extends [OF this] show ?thesis by auto
  qed
  moreover have "cd_walk utf8 buf cdEnd cdCursor acc = Some (Inr (acc @ [e]))"
    if "\<not> n < cdEnd"
    using step cd_walk_done [OF that, of utf8 buf "acc @ [e]"] by simp
  ultimately show ?thesis using b cm step by blast
qed

lemma fallback_scan_lists:
  assumes "\<And>p. c \<le> p \<Longrightarrow> take 4 (drop p buf) = localSig \<Longrightarrow> p + 30 \<le> length buf"
  shows "\<exists>rest. fallback_scan utf8 buf c acc = Inr (acc @ rest)"
  using assms
proof (induction utf8 buf c acc rule: fallback_scan.induct)
  case (1 utf8 buf c acc)
  note simps = fallback_scan.simps [of utf8 buf c acc]
  note readable = "1.prems"
  show ?case
  proof (cases "int c < int (length buf) - 4")
    case False
    then show ?thesis by (simp add: simps)
  next
    case True
    note inside = this
    show ?thesis
    proof (cases "indexOf buf localSig c")
      case None
      with inside show ?thesis by (simp add: simps)
    next
      case (Some h)
      from indexOf_Some [OF Some] have ch: "c \<le> h" and sig: "take 4 (drop h buf) = localSig"
        by (simp_all add: localSig_length)
      from readable [OF ch sig] have "h + 30 \<le> length buf" .
      from fallback_body_total [OF this, of utf8] obtain e n where
        body: "fallback_body utf8 buf h = Inr (e, n)" by blast
      from fallback_body_next [OF body] ch have cn: "c \<le> n" by simp
      have "\<exists>rest. fallback_scan utf8 buf n (acc @ [e]) = Inr ((acc @ [e]) @ rest)"
      proof (rule "1.IH" [OF inside Some body refl])
        fix p
        assume "n \<le> p" and "take 4 (drop p buf) = localSig"
        with cn readable [of p] show "p + 30 \<le> length buf" by simp
      qed
      then obtain rest where "fallback_scan utf8 buf n (acc @ [e]) = Inr (acc @ e # rest)"
        by auto
      with inside Some body have "fallback_scan utf8 buf c acc = Inr (acc @ e # rest)"
        by (simp add: simps)
      then show ?thesis by blast
    qed
  qed
qed


section \<open>The example archives, parsed\<close>

lemmas eval_defs = readUInt32LE_def readUInt16LE_def toString_def slice_def
  endsWith_def slash_def lit_def ascii_decode_def byteAt_def eocd_match_def localSig_def

lemma archive_scan_listing:
  "Unzipper ascii_decode archive_scan =
     Some (Inr \<lparr>entries =
       [\<lparr>entryName = lit ''d/'', isDirectory = True, compressionMethod = 0,
         compressedData = \<lparr>byteOffset = 32, byteLength = 0\<rparr>\<rparr>,
        \<lparr>entryName = lit ''a'', isDirectory = False, compressionMethod = 8,
         compressedData = \<lparr>byteOffset = 63, byteLength = 7\<rparr>\<rparr>]\<rparr>)"
proof -
  have "find_eocd archive_scan = - 1"
    by (simp add: find_eocd_def archive_scan_def eocd_loop.simps eval_defs)
  moreover have "fallback_scan ascii_decode archive_scan 0 [] =
     Inr [\<lparr>entryName = lit ''d/'', isDirectory = True, compressionMethod = 0,
           compressedData = \<lparr>byteOffset = 32, byteLength = 0\<rparr>\<rparr>,
          \<lparr>entryName = lit ''a'', isDirectory = False, compressionMethod = 8,
           compressedData = \<lparr>byteOffset = 63, byteLength = 7\<rparr>\<rparr>]"
    by (simp add: fallback_scan.simps indexOf.simps fallback_body_def archive_scan_def eval_defs)
  ultimately show ?thesis by (simp add: Unzipper_fallback)
qed

lemma archive_m99_listing:
  "Unzipper ascii_decode archive_m99 =
     Some (Inr \<lparr>entries =
       [\<lparr>entryName = lit ''z'', isDirectory = False, compressionMethod = 99,
         compressedData = \<lparr>byteOffset = 31, byteLength = 0\<rparr>\<rparr>]\<rparr>)"
proof -
  have "find_eocd archive_m99 = - 1"
    by (simp add: find_eocd_def archive_m99_def eocd_loop.simps eval_defs)
  moreover have "fallback_scan ascii_decode archive_m99 0 [] =
     Inr [\<lparr>entryName = lit ''z'', isDirectory = False, compressionMethod = 99,
           compressedData = \<lparr>byteOffset = 31, byteLength = 0\<rparr>\<rparr>]"
    by (simp add: fallback_scan.simps indexOf.simps fallback_body_def archive_m99_def eval_defs)
  ultimately show ?thesis by (simp add: Unzipper_fallback)
qed


lemma archive_dir_listing:
  "Unzipper ascii_decode archive_dir =
     Some (Inr \<lparr>entries =
       [\<lparr>entryName = lit ''a'', isDirectory = False, compressionMethod = 0,
         compressedData = \<lparr>byteOffset = 33, byteLength = 5\<rparr>\<rparr>]\<rparr>)"
proof -
  have pos: "find_eocd archive_dir = 85"
    by (simp add: find_eocd_def archive_dir_def eocd_loop.simps eval_defs)
  have off: "readUInt32LE archive_dir (nat 85 + 16) = Inr 38"
    and sz: "readUInt32LE archive_dir (nat 85 + 12) = Inr 47"
    by (simp_all add: archive_dir_def readUInt32LE_def)
  have body: "cd_body ascii_decode archive_dir 38 =
      Inr (Push \<lparr>entryName = lit ''a'', isDirectory = False, compressionMethod = 0,
                 compressedData = \<lparr>byteOffset = 33, byteLength = 5\<rparr>\<rparr> 85)"
    by (simp add: archive_dir_def cd_body_def eval_defs)
  have "cd_walk ascii_decode archive_dir (38 + 47) 38 [] =
      Some (Inr [\<lparr>entryName = lit ''a'', isDirectory = False, compressionMethod = 0,
                 compressedData = \<lparr>byteOffset = 33, byteLength = 5\<rparr>\<rparr>])"
    by (simp add: cd_walk_Push [OF _ body] cd_walk_done)
  with Unzipper_directory [OF pos _ off sz] show ?thesis by simp
qed


lemma archive_dir_m99_listing:
  "Unzipper ascii_decode archive_dir_m99 =
     Some (Inr \<lparr>entries =
       [\<lparr>entryName = lit ''z'', isDirectory = False, compressionMethod = 99,
         compressedData = \<lparr>byteOffset = 31, byteLength = 0\<rparr>\<rparr>]\<rparr>)"
proof -
  have pos: "find_eocd archive_dir_m99 = 78"
    by (simp add: find_eocd_def archive_dir_m99_def eocd_loop.simps eval_defs)
  have off: "readUInt32LE archive_dir_m99 (nat 78 + 16) = Inr 31"
    and sz: "readUInt32LE archive_dir_m99 (nat 78 + 12) = Inr 47"
    by (simp_all add: archive_dir_m99_def readUInt32LE_def)
  have body: "cd_body ascii_decode archive_dir_m99 31 =
      Inr (Push \<lparr>entryName = lit ''z'', isDirectory = False, compressionMethod = 99,
                 compressedData = \<lparr>byteOffset = 31, byteLength = 0\<rparr>\<rparr> 78)"
    by (simp add: archive_dir_m99_def cd_body_def eval_defs)
  have "cd_walk ascii_decode archive_dir_m99 (31 + 47) 31 [] =
      Some (Inr [\<lparr>entryName = lit ''z'', isDirectory = False, compressionMethod = 99,
                 compressedData = \<lparr>byteOffset = 31, byteLength = 0\<rparr>\<rparr>])"
    by (simp add: cd_walk_Push [OF _ body] cd_walk_done)
  with Unzipper_directory [OF pos _ off sz] show ?thesis by simp
qed

lemma archive_comment_sig_listing:
  "find_eocd archive_comment_sig = 107 \<and>
   Unzipper ascii_decode archive_comment_sig = Some (Inr \<lparr>entries = []\<rparr>)"
proof -
  have pos: "find_eocd archive_comment_sig = 107"
    by (simp add: find_eocd_def archive_comment_sig_def eocd_loop.simps eval_defs)
  have off: "readUInt32LE archive_comment_sig (nat 107 + 16) = Inr 0"
    and sz: "readUInt32LE archive_comment_sig (nat 107 + 12) = Inr 0"
    by (simp_all add: archive_comment_sig_def readUInt32LE_def)
  have "cd_walk ascii_decode archive_comment_sig (0 + 0) 0 [] = Some (Inr [])"
    by (simp add: cd_walk_done)
  with Unzipper_directory [OF pos _ off sz] pos show ?thesis by simp
qed

section \<open>A directory record whose local header is damaged\<close>

text \<open>
  C1.  The specification lets the walk skip a record whose local header has the wrong
  signature and go on with the records after it.  The code's \<^verbatim>\<open>continue\<close> leaves the
  cursor on the same record, so the walk reads that record again without end
  (\<open>cd_walk_bad_local_header_diverges\<close>).  In \<open>archive_bad_ref\<close> the record at 31 points at
  offset 4, the record at 78 is valid and would list the file \<^verbatim>\<open>b\<close>, and the constructor
  never returns.
\<close>

theorem skipped_record_blocks_the_walk:
  "cd_body ascii_decode archive_bad_ref 31 = Inr Continue \<and>
   cd_body ascii_decode archive_bad_ref 78 =
     Inr (Push \<lparr>entryName = lit ''b'', isDirectory = False, compressionMethod = 0,
                compressedData = \<lparr>byteOffset = 31, byteLength = 0\<rparr>\<rparr> 125) \<and>
   Unzipper ascii_decode archive_bad_ref = None"
proof -
  have pos: "find_eocd archive_bad_ref = 125"
    by (simp add: find_eocd_def archive_bad_ref_def eocd_loop.simps eval_defs)
  have off: "readUInt32LE archive_bad_ref (nat 125 + 16) = Inr 31"
    and sz: "readUInt32LE archive_bad_ref (nat 125 + 12) = Inr 94"
    by (simp_all add: archive_bad_ref_def readUInt32LE_def)
  have first: "cd_body ascii_decode archive_bad_ref 31 = Inr Continue"
    by (simp add: archive_bad_ref_def cd_body_def eval_defs)
  have second: "cd_body ascii_decode archive_bad_ref 78 =
     Inr (Push \<lparr>entryName = lit ''b'', isDirectory = False, compressionMethod = 0,
                compressedData = \<lparr>byteOffset = 31, byteLength = 0\<rparr>\<rparr> 125)"
    by (simp add: archive_bad_ref_def cd_body_def eval_defs)
  have "cd_walk ascii_decode archive_bad_ref (31 + 94) 31 [] = None"
    by (rule cd_walk_continue_diverges [OF _ first]) simp
  from Unzipper_diverges [OF pos _ off sz this] first second show ?thesis by simp
qed

section \<open>Termination\<close>

text \<open>
  C2.  The backward search and the fallback scan are total functions, and the directory
  walk returns whenever no record takes the \<^verbatim>\<open>continue\<close> branch (\<open>cd_walk_returns\<close>).  But
  on \<open>archive_loop\<close>, whose only directory record points at a place without a local header
  signature, the constructor neither returns nor throws.
\<close>

theorem directory_walk_can_loop_forever:
  "find_eocd archive_loop = 46 \<and>
   cd_body ascii_decode archive_loop 0 = Inr Continue \<and>
   Unzipper ascii_decode archive_loop = None"
proof -
  have pos: "find_eocd archive_loop = 46"
    by (simp add: find_eocd_def archive_loop_def eocd_loop.simps eval_defs)
  have off: "readUInt32LE archive_loop (nat 46 + 16) = Inr 0"
    and sz: "readUInt32LE archive_loop (nat 46 + 12) = Inr 46"
    by (simp_all add: archive_loop_def readUInt32LE_def)
  have body: "cd_body ascii_decode archive_loop 0 = Inr Continue"
    by (simp add: archive_loop_def cd_body_def eval_defs)
  have "cd_walk ascii_decode archive_loop (0 + 46) 0 [] = None"
    by (rule cd_walk_continue_diverges [OF _ body]) simp
  from Unzipper_diverges [OF pos _ off sz this] pos body show ?thesis by simp
qed

section \<open>Views and the bounds of the buffer\<close>




section \<open>Unsupported compression methods\<close>

text \<open>
  C4, as the code has it.  Listing never fails because of a compression method: the only
  exception the constructor can throw is the \<^verbatim>\<open>RangeError\<close> of a read outside the buffer.
  On both paths the entry is listed with the method code of its header, whatever the code
  is.  In the fallback scan every local header whose 30 fixed bytes lie inside the buffer
  yields an entry with the header's code; the scan goes on with that entry appended, the
  entry is in every listing the scan returns, and the listing ends with it when the next
  offset ends the scan.  In the directory walk the same holds for every record with the
  directory signature whose local header carries the local signature and has its 30 fixed
  bytes inside the buffer, with the code read from the record.  \<open>getData\<close> on an entry whose
  method is neither 0 nor 8 throws a generic \<^verbatim>\<open>Error\<close>, not an exception of a class of its
  own; the method code appears in decimal at the end of the message.
\<close>

theorem unsupported_method_fails_in_getData_only:
  "(\<forall>err. Unzipper utf8 buf = Some (Inl err) \<longrightarrow> err = RangeError) \<and>
   (\<forall>headerOffset method.
      headerOffset + 30 \<le> length buf \<and> readUInt16LE buf (headerOffset + 8) = Inr method \<longrightarrow>
      (\<exists>e next. fallback_body utf8 buf headerOffset = Inr (e, next) \<and>
                 compressionMethod e = method)) \<and>
   (\<forall>currentOffset headerOffset method acc.
      int currentOffset < int (length buf) - 4 \<and>
      indexOf buf localSig currentOffset = Some headerOffset \<and>
      headerOffset + 30 \<le> length buf \<and>
      readUInt16LE buf (headerOffset + 8) = Inr method \<longrightarrow>
      (\<exists>e next. fallback_body utf8 buf headerOffset = Inr (e, next) \<and>
         compressionMethod e = method \<and>
         fallback_scan utf8 buf currentOffset acc = fallback_scan utf8 buf next (acc @ [e]) \<and>
         (\<forall>es. fallback_scan utf8 buf currentOffset acc = Inr es \<longrightarrow> e \<in> set es) \<and>
         (int (length buf) - 4 \<le> int next \<longrightarrow>
            fallback_scan utf8 buf currentOffset acc = Inr (acc @ [e])))) \<and>
   (\<forall>cdEnd cdCursor localHeaderOffset method acc.
      cdCursor < cdEnd \<and>
      readUInt32LE buf cdCursor = Inr 0x02014b50 \<and>
      readUInt16LE buf (cdCursor + 10) = Inr method \<and>
      readUInt32LE buf (cdCursor + 42) = Inr localHeaderOffset \<and>
      readUInt32LE buf localHeaderOffset = Inr 0x04034b50 \<and>
      localHeaderOffset + 30 \<le> length buf \<longrightarrow>
      (\<exists>e next. cd_body utf8 buf cdCursor = Inr (Push e next) \<and>
         compressionMethod e = method \<and>
         cd_walk utf8 buf cdEnd cdCursor acc = cd_walk utf8 buf cdEnd next (acc @ [e]) \<and>
         (\<forall>es. cd_walk utf8 buf cdEnd cdCursor acc = Some (Inr es) \<longrightarrow> e \<in> set es) \<and>
         (\<not> next < cdEnd \<longrightarrow>
            cd_walk utf8 buf cdEnd cdCursor acc = Some (Inr (acc @ [e]))))) \<and>
   (compressionMethod e \<noteq> 0 \<and> compressionMethod e \<noteq> 8 \<longrightarrow>
      getData inflateRawSync buf e = Inl (Error (unsupported_message (compressionMethod e))) \<and>
      error_name (Error (unsupported_message (compressionMethod e))) = ''Error'' \<and>
      unsupported_message (compressionMethod e) =
        lit (''M'' @ [CHR 0xE9] @ ''thode de compression non support'' @ [CHR 0xE9] @ ''e: '')
        @ number_toString (compressionMethod e))"
proof (intro conjI allI impI)
  fix err
  assume "Unzipper utf8 buf = Some (Inl err)"
  then show "err = RangeError" by (rule Unzipper_Inl)
next
  fix headerOffset m
  assume a: "headerOffset + 30 \<le> length buf \<and> readUInt16LE buf (headerOffset + 8) = Inr m"
  then obtain e n where b: "fallback_body utf8 buf headerOffset = Inr (e, n)"
    using fallback_body_total by blast
  from fallback_body_Inr [OF b] a have "compressionMethod e = m" by auto
  with b show "\<exists>e next. fallback_body utf8 buf headerOffset = Inr (e, next) \<and>
                 compressionMethod e = m"
    by blast
next
  fix currentOffset headerOffset m acc
  assume "int currentOffset < int (length buf) - 4 \<and>
      indexOf buf localSig currentOffset = Some headerOffset \<and>
      headerOffset + 30 \<le> length buf \<and>
      readUInt16LE buf (headerOffset + 8) = Inr m"
  then show "\<exists>e next. fallback_body utf8 buf headerOffset = Inr (e, next) \<and>
         compressionMethod e = m \<and>
         fallback_scan utf8 buf currentOffset acc = fallback_scan utf8 buf next (acc @ [e]) \<and>
         (\<forall>es. fallback_scan utf8 buf currentOffset acc = Inr es \<longrightarrow> e \<in> set es) \<and>
         (int (length buf) - 4 \<le> int next \<longrightarrow>
            fallback_scan utf8 buf currentOffset acc = Inr (acc @ [e]))"
    using fallback_scan_lists_method [of currentOffset buf headerOffset m utf8 acc] by blast
next
  fix cdEnd cdCursor localHeaderOffset m acc
  assume "cdCursor < cdEnd \<and>
      readUInt32LE buf cdCursor = Inr 0x02014b50 \<and>
      readUInt16LE buf (cdCursor + 10) = Inr m \<and>
      readUInt32LE buf (cdCursor + 42) = Inr localHeaderOffset \<and>
      readUInt32LE buf localHeaderOffset = Inr 0x04034b50 \<and>
      localHeaderOffset + 30 \<le> length buf"
  then show "\<exists>e next. cd_body utf8 buf cdCursor = Inr (Push e next) \<and>
         compressionMethod e = m \<and>
         cd_walk utf8 buf cdEnd cdCursor acc = cd_walk utf8 buf cdEnd next (acc @ [e]) \<and>
         (\<forall>es. cd_walk utf8 buf cdEnd cdCursor acc = Some (Inr es) \<longrightarrow> e \<in> set es) \<and>
         (\<not> next < cdEnd \<longrightarrow>
            cd_walk utf8 buf cdEnd cdCursor acc = Some (Inr (acc @ [e])))"
    using cd_walk_lists_method [of cdCursor cdEnd buf m localHeaderOffset utf8 acc] by blast
qed (simp_all add: getData_def unsupported_message_def)

theorem unsupported_method_fails_in_getData_only_witness:
  "Unzipper ascii_decode archive_m99 =
     Some (Inr \<lparr>entries =
       [\<lparr>entryName = lit ''z'', isDirectory = False, compressionMethod = 99,
         compressedData = \<lparr>byteOffset = 31, byteLength = 0\<rparr>\<rparr>]\<rparr>) \<and>
   int 0 < int (length archive_m99) - 4 \<and>
   indexOf archive_m99 localSig 0 = Some 0 \<and>
   (0::nat) + 30 \<le> length archive_m99 \<and> readUInt16LE archive_m99 (0 + 8) = Inr 99 \<and>
   (\<exists>e. compressionMethod e = 99 \<and>
        fallback_scan ascii_decode archive_m99 0 [] = Inr ([] @ [e])) \<and>
   getData inflate_stored archive_m99
     \<lparr>entryName = lit ''z'', isDirectory = False, compressionMethod = 99,
      compressedData = \<lparr>byteOffset = 31, byteLength = 0\<rparr>\<rparr>
     = Inl (Error (unsupported_message 99)) \<and>
   Unzipper ascii_decode archive_dir_m99 =
     Some (Inr \<lparr>entries =
       [\<lparr>entryName = lit ''z'', isDirectory = False, compressionMethod = 99,
         compressedData = \<lparr>byteOffset = 31, byteLength = 0\<rparr>\<rparr>]\<rparr>) \<and>
   (31::nat) < 78 \<and>
   readUInt32LE archive_dir_m99 31 = Inr 0x02014b50 \<and>
   readUInt16LE archive_dir_m99 (31 + 10) = Inr 99 \<and>
   readUInt32LE archive_dir_m99 (31 + 42) = Inr 0 \<and>
   readUInt32LE archive_dir_m99 0 = Inr 0x04034b50 \<and>
   (0::nat) + 30 \<le> length archive_dir_m99 \<and>
   (\<exists>e. compressionMethod e = 99 \<and>
        cd_walk ascii_decode archive_dir_m99 78 31 [] = Some (Inr ([] @ [e]))) \<and>
   getData inflate_stored archive_dir_m99
     \<lparr>entryName = lit ''z'', isDirectory = False, compressionMethod = 99,
      compressedData = \<lparr>byteOffset = 31, byteLength = 0\<rparr>\<rparr>
     = Inl (Error (unsupported_message 99))"
proof -
  have s: "int 0 < int (length archive_m99) - 4" "indexOf archive_m99 localSig 0 = Some 0"
    "(0::nat) + 30 \<le> length archive_m99" "readUInt16LE archive_m99 (0 + 8) = Inr 99"
    by (simp_all add: archive_m99_def indexOf.simps eval_defs)
  have d: "(31::nat) < 78" "readUInt32LE archive_dir_m99 31 = Inr 0x02014b50"
    "readUInt16LE archive_dir_m99 (31 + 10) = Inr 99"
    "readUInt32LE archive_dir_m99 (31 + 42) = Inr 0"
    "readUInt32LE archive_dir_m99 0 = Inr 0x04034b50"
    "(0::nat) + 30 \<le> length archive_dir_m99"
    by (simp_all add: archive_dir_m99_def eval_defs)
  note ts = unsupported_method_fails_in_getData_only [of ascii_decode archive_m99
      "\<lparr>entryName = lit ''z'', isDirectory = False, compressionMethod = 99,
        compressedData = \<lparr>byteOffset = 31, byteLength = 0\<rparr>\<rparr>" inflate_stored]
  note td = unsupported_method_fails_in_getData_only [of ascii_decode archive_dir_m99
      "\<lparr>entryName = lit ''z'', isDirectory = False, compressionMethod = 99,
        compressedData = \<lparr>byteOffset = 31, byteLength = 0\<rparr>\<rparr>" inflate_stored]
  note ts_scan = ts [THEN conjunct2, THEN conjunct2, THEN conjunct1, rule_format]
  note ts_get = ts [THEN conjunct2, THEN conjunct2, THEN conjunct2, THEN conjunct2, rule_format]
  note td_walk = td [THEN conjunct2, THEN conjunct2, THEN conjunct2, THEN conjunct1, rule_format]
  note td_get = td [THEN conjunct2, THEN conjunct2, THEN conjunct2, THEN conjunct2, rule_format]
  have "int 0 < int (length archive_m99) - 4 \<and> indexOf archive_m99 localSig 0 = Some 0 \<and>
      0 + 30 \<le> length archive_m99 \<and> readUInt16LE archive_m99 (0 + 8) = Inr 99"
    using s by (intro conjI)
  from ts_scan [OF this, of "[]"] obtain e n where
    e: "fallback_body ascii_decode archive_m99 0 = Inr (e, n)" "compressionMethod e = 99"
      "int (length archive_m99) - 4 \<le> int n \<longrightarrow>
         fallback_scan ascii_decode archive_m99 0 [] = Inr ([] @ [e])"
    by blast
  from fallback_body_next [OF e(1)] have "int (length archive_m99) - 4 \<le> int n"
    by (simp add: archive_m99_def)
  with e have a: "\<exists>e. compressionMethod e = 99 \<and>
        fallback_scan ascii_decode archive_m99 0 [] = Inr ([] @ [e])"
    by blast
  have "(31::nat) < 78 \<and> readUInt32LE archive_dir_m99 31 = Inr 0x02014b50 \<and>
      readUInt16LE archive_dir_m99 (31 + 10) = Inr 99 \<and>
      readUInt32LE archive_dir_m99 (31 + 42) = Inr 0 \<and>
      readUInt32LE archive_dir_m99 0 = Inr 0x04034b50 \<and>
      0 + 30 \<le> length archive_dir_m99"
    using d by (intro conjI)
  from td_walk [OF this, of "[]"] obtain e' n' where
    e': "cd_body ascii_decode archive_dir_m99 31 = Inr (Push e' n')" "compressionMethod e' = 99"
      "\<not> n' < 78 \<longrightarrow> cd_walk ascii_decode archive_dir_m99 78 31 [] = Some (Inr ([] @ [e']))"
    by blast
  from cd_body_Push [OF e'(1)] obtain nl xl cl where
    "readUInt16LE archive_dir_m99 (31 + 28) = Inr nl"
    "readUInt16LE archive_dir_m99 (31 + 30) = Inr xl"
    "readUInt16LE archive_dir_m99 (31 + 32) = Inr cl"
    "n' = 31 + 46 + nl + xl + cl"
    by auto
  then have "\<not> n' < 78" by (simp add: archive_dir_m99_def readUInt16LE_def)
  with e' have b: "\<exists>e. compressionMethod e = 99 \<and>
        cd_walk ascii_decode archive_dir_m99 78 31 [] = Some (Inr ([] @ [e]))"
    by blast
  have m: "compressionMethod \<lparr>entryName = lit ''z'', isDirectory = False, compressionMethod = 99,
        compressedData = \<lparr>byteOffset = 31, byteLength = 0\<rparr>\<rparr> \<noteq> 0 \<and>
      compressionMethod \<lparr>entryName = lit ''z'', isDirectory = False, compressionMethod = 99,
        compressedData = \<lparr>byteOffset = 31, byteLength = 0\<rparr>\<rparr> \<noteq> 8"
    by simp
  from ts_get [OF m] have gs: "getData inflate_stored archive_m99
     \<lparr>entryName = lit ''z'', isDirectory = False, compressionMethod = 99,
      compressedData = \<lparr>byteOffset = 31, byteLength = 0\<rparr>\<rparr>
     = Inl (Error (unsupported_message 99))"
    by simp
  from td_get [OF m] have gd: "getData inflate_stored archive_dir_m99
     \<lparr>entryName = lit ''z'', isDirectory = False, compressionMethod = 99,
      compressedData = \<lparr>byteOffset = 31, byteLength = 0\<rparr>\<rparr>
     = Inl (Error (unsupported_message 99))"
    by simp
  show ?thesis
    using archive_m99_listing s a gs archive_dir_m99_listing d b gd
    by (intro conjI)
qed

text \<open>
  The claim as the specification states it fails on the class of the exception.  The
  file \<^verbatim>\<open>z\<close> of \<open>archive_m99\<close> has method 99; it is listed, and \<open>getData\<close> throws an \<^verbatim>\<open>Error\<close>
  whose \<^verbatim>\<open>name\<close> is \<^verbatim>\<open>Error\<close> and whose only trace of the method code is the text of its
  message.
\<close>

theorem unsupported_method_error_is_generic:
  "Unzipper ascii_decode archive_m99 =
     Some (Inr \<lparr>entries =
       [\<lparr>entryName = lit ''z'', isDirectory = False, compressionMethod = 99,
         compressedData = \<lparr>byteOffset = 31, byteLength = 0\<rparr>\<rparr>]\<rparr>) \<and>
   getData inflate_stored archive_m99
     \<lparr>entryName = lit ''z'', isDirectory = False, compressionMethod = 99,
      compressedData = \<lparr>byteOffset = 31, byteLength = 0\<rparr>\<rparr>
     = Inl (Error (lit (''M'' @ [CHR 0xE9] @ ''thode de compression non support''
                        @ [CHR 0xE9] @ ''e: 99''))) \<and>
   error_name (Error (lit (''M'' @ [CHR 0xE9] @ ''thode de compression non support''
                            @ [CHR 0xE9] @ ''e: 99''))) \<noteq> ''UnsupportedCompressionError''"
proof -
  have "number_toString 99 = lit ''99''"
    by (simp add: number_toString.simps lit_def)
  then have "unsupported_message 99 =
      lit (''M'' @ [CHR 0xE9] @ ''thode de compression non support'' @ [CHR 0xE9] @ ''e: 99'')"
    by (simp add: unsupported_message_def lit_def)
  then show ?thesis
    by (simp add: archive_m99_listing getData_def)
qed

section \<open>Locating the directory\<close>

text \<open>
  C5, as the code has it.  The backward search looks at the offsets from \<open>length - 22\<close> down
  to \<open>max 0 (length - (65535 + 22))\<close>.  When it finds a match, the match lies in that
  window, carries the signature \<^verbatim>\<open>50 4B 05 06\<close> and no offset above it in the window does: it
  is the match nearest to the end of the file.  It finds nothing exactly when no offset of
  the window matches.  For an End-Of-Central-Directory record followed by a comment of at
  most 65535 bytes the search finds a match at the record's offset or after it, and at the
  record's offset exactly when no later offset of the window carries the signature.  When
  nothing is found the constructor's result is the result of the fallback scan from
  offset 0.
\<close>

theorem eocd_search_window:
  "(find_eocd buf \<noteq> - 1 \<longrightarrow>
      max 0 (int (length buf) - (65535 + 22)) \<le> find_eocd buf \<and>
      find_eocd buf \<le> int (length buf) - 22 \<and>
      eocd_match buf (find_eocd buf) \<and>
      (\<forall>j. find_eocd buf < j \<and> j \<le> int (length buf) - 22 \<longrightarrow> \<not> eocd_match buf j)) \<and>
   (find_eocd buf = - 1 \<longleftrightarrow>
      (\<forall>j. max 0 (int (length buf) - (65535 + 22)) \<le> j \<and> j \<le> int (length buf) - 22 \<longrightarrow>
           \<not> eocd_match buf j)) \<and>
   (\<forall>archive comment.
      buf = archive @ comment \<and> 22 \<le> length archive \<and>
      eocd_match archive (int (length archive) - 22) \<and> length comment \<le> 65535 \<longrightarrow>
      find_eocd buf \<noteq> - 1 \<and> int (length archive) - 22 \<le> find_eocd buf \<and>
      (find_eocd buf = int (length archive) - 22 \<longleftrightarrow>
         (\<forall>j. int (length archive) - 22 < j \<and> j \<le> int (length buf) - 22 \<longrightarrow>
              \<not> eocd_match buf j))) \<and>
   (find_eocd buf = - 1 \<longrightarrow>
      Unzipper utf8 buf =
        Some (map_sum id (\<lambda>es. \<lparr>entries = es\<rparr>) (fallback_scan utf8 buf 0 [])))"
proof (intro conjI)
  show "find_eocd buf \<noteq> - 1 \<longrightarrow>
      max 0 (int (length buf) - (65535 + 22)) \<le> find_eocd buf \<and>
      find_eocd buf \<le> int (length buf) - 22 \<and>
      eocd_match buf (find_eocd buf) \<and>
      (\<forall>j. find_eocd buf < j \<and> j \<le> int (length buf) - 22 \<longrightarrow> \<not> eocd_match buf j)"
    using find_eocd_found [of buf] by blast
  show "find_eocd buf = - 1 \<longleftrightarrow>
      (\<forall>j. max 0 (int (length buf) - (65535 + 22)) \<le> j \<and> j \<le> int (length buf) - 22 \<longrightarrow>
           \<not> eocd_match buf j)"
    by (rule find_eocd_none)
  show "\<forall>archive comment.
      buf = archive @ comment \<and> 22 \<le> length archive \<and>
      eocd_match archive (int (length archive) - 22) \<and> length comment \<le> 65535 \<longrightarrow>
      find_eocd buf \<noteq> - 1 \<and> int (length archive) - 22 \<le> find_eocd buf \<and>
      (find_eocd buf = int (length archive) - 22 \<longleftrightarrow>
         (\<forall>j. int (length archive) - 22 < j \<and> j \<le> int (length buf) - 22 \<longrightarrow>
              \<not> eocd_match buf j))"
  proof (intro allI impI, elim conjE)
    fix archive comment
    assume a: "buf = archive @ comment" "22 \<le> length archive"
      "eocd_match archive (int (length archive) - 22)" "length comment \<le> 65535"
    from find_eocd_comment(1,2) [OF a] find_eocd_comment_iff [OF a]
    show "find_eocd buf \<noteq> - 1 \<and> int (length archive) - 22 \<le> find_eocd buf \<and>
      (find_eocd buf = int (length archive) - 22 \<longleftrightarrow>
         (\<forall>j. int (length archive) - 22 < j \<and> j \<le> int (length buf) - 22 \<longrightarrow>
              \<not> eocd_match buf j))"
      by (intro conjI)
  qed
  show "find_eocd buf = - 1 \<longrightarrow>
      Unzipper utf8 buf =
        Some (map_sum id (\<lambda>es. \<lparr>entries = es\<rparr>) (fallback_scan utf8 buf 0 []))"
    by (simp add: Unzipper_fallback)
qed

theorem eocd_search_window_witness:
  "archive_dir = take 107 archive_dir @ [0x61, 0x62, 0x63] \<and>
   (22::nat) \<le> length (take 107 archive_dir) \<and>
   eocd_match (take 107 archive_dir) (int (length (take 107 archive_dir)) - 22) \<and>
   length [0x61, 0x62, 0x63 :: byte] \<le> 65535 \<and>
   int (length (take 107 archive_dir)) - 22 \<le> find_eocd archive_dir \<and>
   find_eocd archive_dir = 85 \<and>
   eocd_match archive_dir 85 \<and>
   int (length archive_dir) - 22 = 88 \<and>
   \<not> eocd_match archive_dir 86 \<and> \<not> eocd_match archive_dir 87 \<and>
   \<not> eocd_match archive_dir 88 \<and>
   find_eocd archive_scan = - 1 \<and>
   Unzipper ascii_decode archive_scan =
     Some (map_sum id (\<lambda>es. \<lparr>entries = es\<rparr>) (fallback_scan ascii_decode archive_scan 0 []))"
proof -
  have split: "archive_dir = take 107 archive_dir @ [0x61, 0x62, 0x63]"
    by (simp add: archive_dir_def)
  have len: "(22::nat) \<le> length (take 107 archive_dir)"
    by (simp add: archive_dir_def)
  have l107: "int (length (take 107 archive_dir)) - 22 = 85"
    by (simp add: archive_dir_def)
  have m: "eocd_match (take 107 archive_dir) (int (length (take 107 archive_dir)) - 22)"
    by (simp add: archive_dir_def eocd_match_def byteAt_def)
  have c: "length [0x61, 0x62, 0x63 :: byte] \<le> 65535" by simp
  have pos: "find_eocd archive_dir = 85"
    by (simp add: find_eocd_def archive_dir_def eocd_loop.simps eval_defs)
  have none: "find_eocd archive_scan = - 1"
    by (simp add: find_eocd_def archive_scan_def eocd_loop.simps eval_defs)
  note t = eocd_search_window [of archive_dir ascii_decode]
  note t_found = t [THEN conjunct1, rule_format]
  note t_comment = t [THEN conjunct2, THEN conjunct2, THEN conjunct1, rule_format]
  note u = eocd_search_window [of archive_scan ascii_decode]
  note u_fallback = u [THEN conjunct2, THEN conjunct2, THEN conjunct2, rule_format]
  have found: "find_eocd archive_dir \<noteq> - 1" using pos by simp
  from t_found [OF found] pos have e: "eocd_match archive_dir 85" by simp
  have hyp: "archive_dir = take 107 archive_dir @ [0x61, 0x62, 0x63] \<and>
     22 \<le> length (take 107 archive_dir) \<and>
     eocd_match (take 107 archive_dir) (int (length (take 107 archive_dir)) - 22) \<and>
     length [0x61, 0x62, 0x63 :: byte] \<le> 65535"
    using split len m c by (intro conjI)
  note tc = t_comment [OF hyp]
  from tc have ge: "int (length (take 107 archive_dir)) - 22 \<le> find_eocd archive_dir"
    by (elim conjE)
  have l110: "int (length archive_dir) - 22 = 88"
    by (simp add: archive_dir_def)
  from tc pos l107 l110
  have later: "\<not> eocd_match archive_dir 86" "\<not> eocd_match archive_dir 87"
    "\<not> eocd_match archive_dir 88"
    by simp_all
  from u_fallback [OF none]
  have fb: "Unzipper ascii_decode archive_scan =
     Some (map_sum id (\<lambda>es. \<lparr>entries = es\<rparr>) (fallback_scan ascii_decode archive_scan 0 []))" .
  show ?thesis using split len m c ge pos e l110 later none fb by (intro conjI)
qed

text \<open>
  The claim as the specification states it fails: an intact End-Of-Central-Directory
  record followed by a short comment is not always the record that is located.  In
  \<open>archive_comment_sig\<close> the record at 85 is intact (directory size 47, directory offset 38,
  comment length 22), but its comment begins with the signature, so the search stops at
  107, reads a directory of size 0 at offset 0 from the comment, and the file \<^verbatim>\<open>a\<close> is not
  listed.
\<close>

theorem eocd_hidden_by_signature_in_comment:
  "length archive_comment_sig = 129 \<and>
   eocd_match archive_comment_sig 85 \<and>
   readUInt32LE archive_comment_sig (85 + 12) = Inr 47 \<and>
   readUInt32LE archive_comment_sig (85 + 16) = Inr 38 \<and>
   readUInt16LE archive_comment_sig (85 + 20) = Inr 22 \<and>
   find_eocd archive_comment_sig = 107 \<and>
   Unzipper ascii_decode archive_comment_sig = Some (Inr \<lparr>entries = []\<rparr>)"
proof -
  have "length archive_comment_sig = 129" "eocd_match archive_comment_sig 85"
    "readUInt32LE archive_comment_sig (85 + 12) = Inr 47"
    "readUInt32LE archive_comment_sig (85 + 16) = Inr 38"
    "readUInt16LE archive_comment_sig (85 + 20) = Inr 22"
    by (simp_all add: archive_comment_sig_def eval_defs)
  with archive_comment_sig_listing show ?thesis by simp
qed

section \<open>Decoding a payload\<close>

text \<open>
  C6.  \<open>getData\<close> on an entry of method 0 returns the bytes of the entry's view as they are
  in the buffer, and on an entry of method 8 it returns what the raw-deflate decoder
  \<^verbatim>\<open>zlib.inflateRawSync\<close> returns (or throws) on those bytes, with nothing applied before or
  after.  For an entry of a constructed archive the view lies inside the buffer, so these
  bytes are \<open>byteLength\<close> many and the \<open>i\<close>-th is the buffer's byte at \<open>byteOffset + i\<close>.
\<close>

theorem getData_stored_and_deflated:
  "(compressionMethod e = 0 \<longrightarrow>
      getData inflateRawSync buf e = Inr (bytes buf (compressedData e))) \<and>
   (compressionMethod e = 8 \<longrightarrow>
      getData inflateRawSync buf e = inflateRawSync (bytes buf (compressedData e))) \<and>
   (\<forall>this. Unzipper utf8 buf = Some (Inr this) \<and> e \<in> set (getEntries this) \<longrightarrow>
      length (bytes buf (compressedData e)) = byteLength (compressedData e) \<and>
      (\<forall>i < byteLength (compressedData e).
         bytes buf (compressedData e) ! i = buf ! (byteOffset (compressedData e) + i)))"
proof (intro conjI allI impI)
  fix this
  assume a: "Unzipper utf8 buf = Some (Inr this) \<and> e \<in> set (getEntries this)"
  have "\<forall>e\<in>set (getEntries this).
          byteOffset (compressedData e) + byteLength (compressedData e) \<le> length buf"
  proof (rule Unzipper_entries_inv)
    show "Unzipper utf8 buf = Some (Inr this)" using a by simp
  next
    fix c e n
    assume "cd_body utf8 buf c = Inr (Push e n)"
    from cd_body_Push [OF this] obtain s k where "compressedData e = slice buf s (s + k)"
      by auto
    then show "byteOffset (compressedData e) + byteLength (compressedData e) \<le> length buf"
      using slice_in_bounds [of buf s "s + k"] by simp
  next
    fix h e n
    assume "fallback_body utf8 buf h = Inr (e, n)"
    from fallback_body_Inr [OF this] obtain s k where "compressedData e = slice buf s (s + k)"
      by auto
    then show "byteOffset (compressedData e) + byteLength (compressedData e) \<le> length buf"
      using slice_in_bounds [of buf s "s + k"] by simp
  qed
  with a have inside:
    "byteOffset (compressedData e) + byteLength (compressedData e) \<le> length buf"
    by blast
  then show "length (bytes buf (compressedData e)) = byteLength (compressedData e)"
    by (simp add: bytes_def)
  fix i
  assume "i < byteLength (compressedData e)"
  with inside show "bytes buf (compressedData e) ! i = buf ! (byteOffset (compressedData e) + i)"
    by (simp add: bytes_def)
qed (simp_all add: getData_def)

theorem getData_stored_and_deflated_witness:
  "Unzipper ascii_decode archive_scan =
     Some (Inr \<lparr>entries =
       [\<lparr>entryName = lit ''d/'', isDirectory = True, compressionMethod = 0,
         compressedData = \<lparr>byteOffset = 32, byteLength = 0\<rparr>\<rparr>,
        \<lparr>entryName = lit ''a'', isDirectory = False, compressionMethod = 8,
         compressedData = \<lparr>byteOffset = 63, byteLength = 7\<rparr>\<rparr>]\<rparr>) \<and>
   getData inflate_stored archive_scan
     \<lparr>entryName = lit ''a'', isDirectory = False, compressionMethod = 8,
      compressedData = \<lparr>byteOffset = 63, byteLength = 7\<rparr>\<rparr>
     = Inr [0x68, 0x69] \<and>
   length (bytes archive_scan \<lparr>byteOffset = 63, byteLength = 7\<rparr>) = 7 \<and>
   getData inflate_stored archive_dir
     \<lparr>entryName = lit ''a'', isDirectory = False, compressionMethod = 0,
      compressedData = \<lparr>byteOffset = 33, byteLength = 5\<rparr>\<rparr>
     = Inr [0x68, 0x65, 0x6C, 0x6C, 0x6F]"
proof -
  note deflated = getData_stored_and_deflated [of
      "\<lparr>entryName = lit ''a'', isDirectory = False, compressionMethod = 8,
        compressedData = \<lparr>byteOffset = 63, byteLength = 7\<rparr>\<rparr>"
      inflate_stored archive_scan ascii_decode]
  note stored = getData_stored_and_deflated [of
      "\<lparr>entryName = lit ''a'', isDirectory = False, compressionMethod = 0,
        compressedData = \<lparr>byteOffset = 33, byteLength = 5\<rparr>\<rparr>"
      inflate_stored archive_dir ascii_decode]
  from deflated have "getData inflate_stored archive_scan
     \<lparr>entryName = lit ''a'', isDirectory = False, compressionMethod = 8,
      compressedData = \<lparr>byteOffset = 63, byteLength = 7\<rparr>\<rparr>
     = Inr [0x68, 0x69]"
    by (simp add: bytes_def archive_scan_def)
  moreover from deflated archive_scan_listing
  have "length (bytes archive_scan \<lparr>byteOffset = 63, byteLength = 7\<rparr>) = 7"
    by (simp add: getEntries_def)
  moreover from stored have "getData inflate_stored archive_dir
     \<lparr>entryName = lit ''a'', isDirectory = False, compressionMethod = 0,
      compressedData = \<lparr>byteOffset = 33, byteLength = 5\<rparr>\<rparr>
     = Inr [0x68, 0x65, 0x6C, 0x6C, 0x6F]"
    by (simp add: bytes_def archive_dir_def)
  ultimately show ?thesis using archive_scan_listing by simp
qed

section \<open>One step of the fallback scan\<close>

text \<open>
  C7, as the code has it.  In the fallback scan, a local-header signature found at
  \<open>headerOffset\<close> whose fixed fields are read gives
  \<open>payloadStart = headerOffset + 30 + nameLen + extraLen\<close>, and the body of the loop pushes the
  entry whose view is the slice from \<open>payloadStart\<close> to \<open>payloadStart + compressedSize\<close>: the
  view begins at \<open>min payloadStart length\<close> and ends at
  \<open>min (payloadStart + compressedSize) length\<close>, its bytes are those of the buffer in that
  range, and it is exactly that range when the range lies inside the buffer.  The scan
  goes on from \<open>payloadStart + compressedSize\<close> with the entry appended, so a later header is
  never found inside the payload.  The entry is listed: the listing is the entries so far
  and this entry when the next offset ends the scan or no further signature is found; the
  scan returns a listing that holds the entry whenever every later signature has its 30
  fixed bytes inside the buffer; and every listing the scan returns holds the entry right
  after the entries so far.  The entries of the result follow the order of the file: each
  view ends at least a header's length before the next begins.
\<close>

theorem fallback_scan_header_step:
  assumes "int currentOffset < int (length buf) - 4"
    and "indexOf buf localSig currentOffset = Some headerOffset"
    and "readUInt16LE buf (headerOffset + 8) = Inr method"
    and "readUInt32LE buf (headerOffset + 18) = Inr compressedSize"
    and "readUInt16LE buf (headerOffset + 26) = Inr nameLen"
    and "readUInt16LE buf (headerOffset + 28) = Inr extraLen"
    and "payloadStart = headerOffset + 30 + nameLen + extraLen"
    and "e = \<lparr>entryName = toString utf8 buf (headerOffset + 30) (headerOffset + 30 + nameLen),
              isDirectory =
                endsWith (toString utf8 buf (headerOffset + 30) (headerOffset + 30 + nameLen)) slash,
              compressionMethod = method,
              compressedData = slice buf payloadStart (payloadStart + compressedSize)\<rparr>"
  shows "fallback_body utf8 buf headerOffset = Inr (e, payloadStart + compressedSize) \<and>
         fallback_scan utf8 buf currentOffset acc =
           fallback_scan utf8 buf (payloadStart + compressedSize) (acc @ [e]) \<and>
         byteOffset (compressedData e) = min payloadStart (length buf) \<and>
         byteOffset (compressedData e) + byteLength (compressedData e)
           = min (payloadStart + compressedSize) (length buf) \<and>
         bytes buf (compressedData e) = take compressedSize (drop payloadStart buf) \<and>
         (payloadStart + compressedSize \<le> length buf \<longrightarrow>
            compressedData e = \<lparr>byteOffset = payloadStart, byteLength = compressedSize\<rparr>) \<and>
         (\<forall>later. indexOf buf localSig (payloadStart + compressedSize) = Some later \<longrightarrow>
            payloadStart + compressedSize \<le> later) \<and>
         (int (length buf) - 4 \<le> int (payloadStart + compressedSize) \<or>
          indexOf buf localSig (payloadStart + compressedSize) = None \<longrightarrow>
            fallback_scan utf8 buf currentOffset acc = Inr (acc @ [e])) \<and>
         ((\<forall>p. payloadStart + compressedSize \<le> p \<and> take 4 (drop p buf) = localSig \<longrightarrow>
               p + 30 \<le> length buf) \<longrightarrow>
            (\<exists>rest. fallback_scan utf8 buf currentOffset acc = Inr (acc @ e # rest))) \<and>
         (\<forall>es. fallback_scan utf8 buf currentOffset acc = Inr es \<longrightarrow>
            (\<exists>rest. es = acc @ e # rest)) \<and>
         (\<forall>es. fallback_scan utf8 buf 0 [] = Inr es \<longrightarrow>
            sorted_wrt (\<lambda>a b. byteOffset (compressedData a) + byteLength (compressedData a) + 30
                               \<le> byteOffset (compressedData b)) es)"
proof -
  have body: "fallback_body utf8 buf headerOffset = Inr (e, payloadStart + compressedSize)"
    using fallback_body_eq [OF assms(3-6), of utf8] by (simp add: assms(7,8))
  have step: "fallback_scan utf8 buf currentOffset acc =
           fallback_scan utf8 buf (payloadStart + compressedSize) (acc @ [e])"
    by (rule fallback_scan_step [OF assms(1,2) body])
  have view: "compressedData e = slice buf payloadStart (payloadStart + compressedSize)"
    by (simp add: assms(8))
  have clamp: "byteOffset (compressedData e) = min payloadStart (length buf)"
    "byteOffset (compressedData e) + byteLength (compressedData e)
       = min (payloadStart + compressedSize) (length buf)"
    using slice_clamp [of buf payloadStart compressedSize] by (simp_all add: view)
  have exact: "payloadStart + compressedSize \<le> length buf \<longrightarrow>
      compressedData e = \<lparr>byteOffset = payloadStart, byteLength = compressedSize\<rparr>"
    by (simp add: view slice_exact)
  have content: "bytes buf (compressedData e) = take compressedSize (drop payloadStart buf)"
    by (simp add: view bytes_slice)
  have ext: "\<forall>es. fallback_scan utf8 buf currentOffset acc = Inr es \<longrightarrow>
      (\<exists>rest. es = acc @ e # rest)"
  proof (intro allI impI)
    fix es
    assume "fallback_scan utf8 buf currentOffset acc = Inr es"
    with step have "fallback_scan utf8 buf (payloadStart + compressedSize) (acc @ [e]) = Inr es"
      by simp
    from fallback_scan_extends [OF this] show "\<exists>rest. es = acc @ e # rest" by auto
  qed
  have later: "\<forall>later. indexOf buf localSig (payloadStart + compressedSize) = Some later \<longrightarrow>
      payloadStart + compressedSize \<le> later"
    using indexOf_Some by blast
  have last: "int (length buf) - 4 \<le> int (payloadStart + compressedSize) \<or>
          indexOf buf localSig (payloadStart + compressedSize) = None \<longrightarrow>
            fallback_scan utf8 buf currentOffset acc = Inr (acc @ [e])"
  proof
    assume "int (length buf) - 4 \<le> int (payloadStart + compressedSize) \<or>
          indexOf buf localSig (payloadStart + compressedSize) = None"
    then have "fallback_scan utf8 buf (payloadStart + compressedSize) (acc @ [e]) = Inr (acc @ [e])"
      by (auto simp: fallback_scan.simps [of utf8 buf "payloadStart + compressedSize" "acc @ [e]"])
    with step show "fallback_scan utf8 buf currentOffset acc = Inr (acc @ [e])" by simp
  qed
  have total: "(\<forall>p. payloadStart + compressedSize \<le> p \<and> take 4 (drop p buf) = localSig \<longrightarrow>
               p + 30 \<le> length buf) \<longrightarrow>
            (\<exists>rest. fallback_scan utf8 buf currentOffset acc = Inr (acc @ e # rest))"
  proof
    assume r: "\<forall>p. payloadStart + compressedSize \<le> p \<and> take 4 (drop p buf) = localSig \<longrightarrow>
               p + 30 \<le> length buf"
    have "\<exists>rest. fallback_scan utf8 buf (payloadStart + compressedSize) (acc @ [e])
             = Inr ((acc @ [e]) @ rest)"
      by (rule fallback_scan_lists) (use r in blast)
    with step show "\<exists>rest. fallback_scan utf8 buf currentOffset acc = Inr (acc @ e # rest)"
      by simp
  qed
  have order: "\<forall>es. fallback_scan utf8 buf 0 [] = Inr es \<longrightarrow>
            sorted_wrt (\<lambda>a b. byteOffset (compressedData a) + byteLength (compressedData a) + 30
                               \<le> byteOffset (compressedData b)) es"
    using fallback_scan_order [of utf8 buf] by blast
  show ?thesis
    using body step clamp content exact later last total ext order by (intro conjI)
qed

theorem fallback_scan_header_step_witness:
  "int 32 < int (length archive_scan) - 4 \<and>
   indexOf archive_scan localSig 32 = Some 32 \<and>
   readUInt16LE archive_scan (32 + 8) = Inr 8 \<and>
   readUInt32LE archive_scan (32 + 18) = Inr 7 \<and>
   readUInt16LE archive_scan (32 + 26) = Inr 1 \<and>
   readUInt16LE archive_scan (32 + 28) = Inr 0 \<and>
   (63::nat) = 32 + 30 + 1 + 0 \<and>
   int (length archive_scan) - 4 \<le> int (63 + 7) \<and>
   fallback_body ascii_decode archive_scan 32 =
     Inr (\<lparr>entryName = lit ''a'', isDirectory = False, compressionMethod = 8,
           compressedData = \<lparr>byteOffset = 63, byteLength = 7\<rparr>\<rparr>, 63 + 7) \<and>
   fallback_scan ascii_decode archive_scan 32 [] =
     Inr ([] @ [\<lparr>entryName = lit ''a'', isDirectory = False, compressionMethod = 8,
                 compressedData = \<lparr>byteOffset = 63, byteLength = 7\<rparr>\<rparr>]) \<and>
   bytes archive_scan \<lparr>byteOffset = 63, byteLength = 7\<rparr> = take 7 (drop 63 archive_scan)"
proof -
  have h1: "int 32 < int (length archive_scan) - 4"
    and h2: "indexOf archive_scan localSig 32 = Some 32"
    and h3: "readUInt16LE archive_scan (32 + 8) = Inr 8"
    and h4: "readUInt32LE archive_scan (32 + 18) = Inr 7"
    and h5: "readUInt16LE archive_scan (32 + 26) = Inr 1"
    and h6: "readUInt16LE archive_scan (32 + 28) = Inr 0"
    by (simp_all add: archive_scan_def indexOf.simps eval_defs)
  have h7: "(63::nat) = 32 + 30 + 1 + 0" by simp
  have name: "toString ascii_decode archive_scan (32 + 30) (32 + 30 + 1) = lit ''a''"
    by (simp add: archive_scan_def eval_defs)
  have h8: "\<lparr>entryName = lit ''a'', isDirectory = False, compressionMethod = 8,
             compressedData = \<lparr>byteOffset = 63, byteLength = 7\<rparr>\<rparr> =
            \<lparr>entryName = toString ascii_decode archive_scan (32 + 30) (32 + 30 + 1),
             isDirectory =
               endsWith (toString ascii_decode archive_scan (32 + 30) (32 + 30 + 1)) slash,
             compressionMethod = 8,
             compressedData = slice archive_scan 63 (63 + 7)\<rparr>"
    unfolding name by (simp add: archive_scan_def eval_defs)
  have h9: "int (length archive_scan) - 4 \<le> int (63 + 7)"
    by (simp add: archive_scan_def)
  note t = fallback_scan_header_step [OF h1 h2 h3 h4 h5 h6 h7 h8, of "[]"]
  note t_body = t [THEN conjunct1]
  note t_bytes = t [THEN conjunct2, THEN conjunct2, THEN conjunct2, THEN conjunct2, THEN conjunct1]
  note t_last = t [THEN conjunct2, THEN conjunct2, THEN conjunct2, THEN conjunct2, THEN conjunct2,
      THEN conjunct2, THEN conjunct2, THEN conjunct1, rule_format]
  from t_last [OF disjI1 [OF h9]]
  have r: "fallback_scan ascii_decode archive_scan 32 [] =
     Inr ([] @ [\<lparr>entryName = lit ''a'', isDirectory = False, compressionMethod = 8,
                 compressedData = \<lparr>byteOffset = 63, byteLength = 7\<rparr>\<rparr>])" .
  from t_bytes have b: "bytes archive_scan \<lparr>byteOffset = 63, byteLength = 7\<rparr>
      = take 7 (drop 63 archive_scan)"
    by simp
  show ?thesis using h1 h2 h3 h4 h5 h6 h7 h9 t_body r b by (intro conjI)
qed

text \<open>
  The claim as the specification states it fails on the view: it is not always the range
  from \<open>payloadStart\<close> to \<open>payloadStart + compressedSize\<close>.  In \<open>archive_overrun\<close> the header at 0
  gives \<open>payloadStart = 31\<close> and a compressed size of 1000, and the entry that the scan lists
  has a view of 2 bytes.
\<close>

theorem fallback_view_cut_short:
  "int 0 < int (length archive_overrun) - 4 \<and>
   indexOf archive_overrun localSig 0 = Some 0 \<and>
   readUInt32LE archive_overrun (0 + 18) = Inr 1000 \<and>
   readUInt16LE archive_overrun (0 + 26) = Inr 1 \<and>
   readUInt16LE archive_overrun (0 + 28) = Inr 0 \<and>
   fallback_scan ascii_decode archive_overrun 0 [] =
     Inr [\<lparr>entryName = lit ''a'', isDirectory = False, compressionMethod = 0,
           compressedData = \<lparr>byteOffset = 31, byteLength = 2\<rparr>\<rparr>] \<and>
   \<lparr>byteOffset = 31, byteLength = 2\<rparr> \<noteq> \<lparr>byteOffset = 0 + 30 + 1 + 0, byteLength = 1000\<rparr>"
proof -
  have "int 0 < int (length archive_overrun) - 4"
    "indexOf archive_overrun localSig 0 = Some 0"
    "readUInt32LE archive_overrun (0 + 18) = Inr 1000"
    "readUInt16LE archive_overrun (0 + 26) = Inr 1"
    "readUInt16LE archive_overrun (0 + 28) = Inr 0"
    by (simp_all add: archive_overrun_def indexOf.simps eval_defs)
  moreover have "fallback_scan ascii_decode archive_overrun 0 [] =
     Inr [\<lparr>entryName = lit ''a'', isDirectory = False, compressionMethod = 0,
           compressedData = \<lparr>byteOffset = 31, byteLength = 2\<rparr>\<rparr>]"
    by (simp add: fallback_scan.simps indexOf.simps fallback_body_def archive_overrun_def eval_defs)
  moreover have "\<lparr>byteOffset = 31, byteLength = 2\<rparr>
      \<noteq> \<lparr>byteOffset = 0 + 30 + 1 + 0, byteLength = (1000::nat)\<rparr>"
    by simp
  ultimately show ?thesis by (intro conjI)
qed

section \<open>One step of the directory walk\<close>




section \<open>Directory flag\<close>

text \<open>
  C9.  Every entry of a constructed archive, whichever of the two paths produced it, has
  \<open>isDirectory\<close> true exactly when its decoded name ends with \<^verbatim>\<open>/\<close>, that is, when the name
  is not empty and its last code unit is \<open>0x2F\<close>.
\<close>

theorem isDirectory_iff_name_ends_with_slash:
  assumes "Unzipper utf8 buf = Some (Inr this)"
  shows "\<forall>e\<in>set (getEntries this).
           (isDirectory e \<longleftrightarrow> endsWith (entryName e) slash) \<and>
           (isDirectory e \<longleftrightarrow> entryName e \<noteq> [] \<and> last (entryName e) = 0x2F)"
proof (rule Unzipper_entries_inv [OF assms])
  fix c e n
  assume "cd_body utf8 buf c = Inr (Push e n)"
  from cd_body_Push [OF this]
  have "isDirectory e \<longleftrightarrow> endsWith (entryName e) slash" by auto
  then show "(isDirectory e \<longleftrightarrow> endsWith (entryName e) slash) \<and>
           (isDirectory e \<longleftrightarrow> entryName e \<noteq> [] \<and> last (entryName e) = 0x2F)"
    by (simp add: endsWith_slash)
next
  fix h e n
  assume "fallback_body utf8 buf h = Inr (e, n)"
  from fallback_body_Inr [OF this]
  have "isDirectory e \<longleftrightarrow> endsWith (entryName e) slash" by auto
  then show "(isDirectory e \<longleftrightarrow> endsWith (entryName e) slash) \<and>
           (isDirectory e \<longleftrightarrow> entryName e \<noteq> [] \<and> last (entryName e) = 0x2F)"
    by (simp add: endsWith_slash)
qed

theorem isDirectory_iff_name_ends_with_slash_witness:
  "Unzipper ascii_decode archive_scan =
     Some (Inr \<lparr>entries =
       [\<lparr>entryName = lit ''d/'', isDirectory = True, compressionMethod = 0,
         compressedData = \<lparr>byteOffset = 32, byteLength = 0\<rparr>\<rparr>,
        \<lparr>entryName = lit ''a'', isDirectory = False, compressionMethod = 8,
         compressedData = \<lparr>byteOffset = 63, byteLength = 7\<rparr>\<rparr>]\<rparr>) \<and>
   endsWith (lit ''d/'') slash \<and> \<not> endsWith (lit ''a'') slash"
  using isDirectory_iff_name_ends_with_slash [OF archive_scan_listing]
  by (simp add: archive_scan_listing getEntries_def)

section \<open>Buffers without any signature\<close>

text \<open>
  C10.  When the backward search finds no End-Of-Central-Directory signature and the
  local-header signature occurs nowhere in the buffer, or when the buffer has at most 4
  bytes, the constructor returns and \<open>getEntries\<close> is the empty list.
\<close>

theorem no_signature_gives_empty_listing:
  assumes "(find_eocd buf = - 1 \<and> (\<forall>p. take 4 (drop p buf) \<noteq> localSig)) \<or> length buf \<le> 4"
  shows "Unzipper utf8 buf = Some (Inr \<lparr>entries = []\<rparr>) \<and> getEntries \<lparr>entries = []\<rparr> = []"
proof -
  have none: "find_eocd buf = - 1"
    using assms find_eocd_short [of buf] by auto
  have "fallback_scan utf8 buf 0 [] = Inr []"
  proof (cases "length buf \<le> 4")
    case True
    then show ?thesis by (simp add: fallback_scan.simps)
  next
    case False
    with assms have "\<forall>p. take (length localSig) (drop p buf) \<noteq> localSig"
      by (simp add: localSig_length)
    then have "indexOf buf localSig 0 = None"
      by (simp add: no_occurrence_iff [OF localSig_nonempty])
    then show ?thesis by (simp add: fallback_scan.simps)
  qed
  with none show ?thesis by (simp add: Unzipper_fallback getEntries_def)
qed

theorem no_signature_gives_empty_listing_witness:
  "find_eocd [1, 2, 3, 4, 5, 6] = - 1 \<and>
   (\<forall>p. take 4 (drop p [1, 2, 3, 4, 5, 6]) \<noteq> localSig) \<and>
   Unzipper ascii_decode [1, 2, 3, 4, 5, 6] = Some (Inr \<lparr>entries = []\<rparr>) \<and>
   length ([] :: buffer) \<le> 4 \<and>
   Unzipper ascii_decode [] = Some (Inr \<lparr>entries = []\<rparr>)"
proof -
  have a: "find_eocd [1, 2, 3, 4, 5, 6] = - 1" by (simp add: find_eocd_short)
  have "indexOf [1, 2, 3, 4, 5, 6] localSig 0 = None"
    by (simp add: indexOf.simps localSig_def)
  then have b: "\<forall>p. take 4 (drop p [1, 2, 3, 4, 5, 6]) \<noteq> localSig"
    using no_occurrence_iff [OF localSig_nonempty, of "[1, 2, 3, 4, 5, 6]"]
    by (simp add: localSig_length)
  have c: "length ([] :: buffer) \<le> 4" by simp
  from a b c
    no_signature_gives_empty_listing [of "[1, 2, 3, 4, 5, 6]" ascii_decode]
    no_signature_gives_empty_listing [of "[]" ascii_decode]
  show ?thesis by simp
qed

end
